theory Spec2Isabelle
  imports Main "HOL-Library.Word"
begin

section \<open>Shared data: bytes, pixels and the display driver's canvas\<close>

type_synonym byte = "8 word"
type_synonym pixel = "byte \<times> byte \<times> byte"

text \<open>
  Modelled from the spec: the \<open>FrameCanvas\<close> of the display driver (\<open>led-matrix.h\<close> is
  not part of the sources). A canvas is the driver's pixel grid, row-major with the origin
  at the top left, \<open>w * h\<close> pixels; \<open>SetPixel\<close> is a bounds-checked pixel write and
  \<open>SwapOnVSync\<close> exchanges the canvas on display with the one handed in.
\<close>

type_synonym canvas = "pixel list"

definition SetPixel :: "nat \<Rightarrow> nat \<Rightarrow> canvas \<Rightarrow> int \<Rightarrow> int \<Rightarrow> byte \<Rightarrow> byte \<Rightarrow> byte \<Rightarrow> canvas" where
  "SetPixel w h c x y r g b =
     (if 0 \<le> x \<and> x < int w \<and> 0 \<le> y \<and> y < int h
      then c[nat y * w + nat x := (r, g, b)] else c)"

definition GetPixel :: "nat \<Rightarrow> canvas \<Rightarrow> nat \<Rightarrow> nat \<Rightarrow> pixel" where
  "GetPixel w c x y = c ! (y * w + x)"

text \<open>
  The two nested \<open>for\<close> loops that both programs use to copy a frame buffer onto the
  off-screen canvas: rows outside, columns inside, a running byte index that advances by
  three per pixel. \<open>row_of\<close> gives the display row written for the buffer row read.
\<close>

definition draw_pixel :: "nat \<Rightarrow> nat \<Rightarrow> byte list \<Rightarrow> int \<Rightarrow> nat \<Rightarrow> canvas \<times> nat \<Rightarrow> canvas \<times> nat" where
  "draw_pixel w h buf y x st =
     (let c = fst st; idx = snd st;
          r = buf ! idx; g = buf ! (idx + 1); b = buf ! (idx + 2)
      in (SetPixel w h c (int x) y r g b, idx + 3))"

definition draw_row :: "nat \<Rightarrow> nat \<Rightarrow> (nat \<Rightarrow> int) \<Rightarrow> byte list \<Rightarrow> nat \<Rightarrow> canvas \<times> nat \<Rightarrow> canvas \<times> nat" where
  "draw_row w h row_of buf y_buf st = fold (draw_pixel w h buf (row_of y_buf)) [0..<w] st"

definition draw_frame :: "nat \<Rightarrow> nat \<Rightarrow> (nat \<Rightarrow> int) \<Rightarrow> byte list \<Rightarrow> canvas \<Rightarrow> canvas" where
  "draw_frame w h row_of buf c = fst (fold (draw_row w h row_of buf) [0..<h] (c, 0))"

text \<open>
  The driver as both programs hold it: the off-screen canvas that \<open>main\<close> draws on, the
  canvas on display, and \<open>shown\<close>, the history of the canvases that \<open>SwapOnVSync\<close> has
  put on display, oldest first. \<open>SwapOnVSync\<close> hands back the canvas that was on display.
\<close>

record display =
  offscreen :: canvas
  front :: canvas
  shown :: "canvas list"

definition SwapOnVSync :: "'a display_scheme \<Rightarrow> 'a display_scheme" where
  "SwapOnVSync s =
     s\<lparr> front := offscreen s, offscreen := front s, shown := shown s @ [offscreen s] \<rparr>"

text \<open>\<open>memcpy\<close> of \<open>len\<close> bytes of \<open>src\<close> to \<open>dst + off\<close>.\<close>

definition memcpy :: "byte list \<Rightarrow> nat \<Rightarrow> byte list \<Rightarrow> nat \<Rightarrow> byte list" where
  "memcpy dst off src len = take off dst @ take len src @ drop (off + len) dst"

text \<open>The three bytes of the pixel that starts at byte \<open>i\<close> of a frame buffer.\<close>

definition pixel_at :: "byte list \<Rightarrow> nat \<Rightarrow> pixel" where
  "pixel_at buf i = (buf ! i, buf ! (i + 1), buf ! (i + 2))"

text \<open>The rows that a drawing loop writes are distinct rows of the canvas.\<close>

definition rows_ok :: "nat \<Rightarrow> (nat \<Rightarrow> int) \<Rightarrow> bool" where
  "rows_ok h row_of \<longleftrightarrow>
     (\<forall>y < h. 0 \<le> row_of y \<and> row_of y < int h) \<and> inj_on row_of {..<h}"

section \<open>The datagram receiver (src/src/udp\_matrix\_receiver.cc)\<close>

definition WIDTH :: nat where "WIDTH = 256"
definition HEIGHT :: nat where "HEIGHT = 192"
definition FRAME_BYTES :: nat where "FRAME_BYTES = WIDTH * HEIGHT * 3"
definition CHUNK_SIZE :: nat where "CHUNK_SIZE = 1024"
definition HEADER_SIZE :: nat where "HEADER_SIZE = 6"

record UdpPacketHeader =
  frame_id :: "16 word"
  packet_index :: "16 word"
  total_packets :: "16 word"

text \<open>
  The local variables of \<open>main\<close> that live across iterations of the receive loop, on top
  of the driver's canvases. \<open>received_packets\<close> is a \<open>size_t\<close>; it never exceeds the
  length of \<open>got_packet\<close>, hence 65535, so it is a \<open>nat\<close> here, as are the byte offsets,
  which stay below \<open>65535 * 1024 + 1024\<close>.
\<close>

record receiver = display +
  frame_buf :: "byte list"
  current_frame_id :: "16 word"
  expected_packets :: "16 word"
  got_packet :: "bool list"
  received_packets :: nat

definition blank :: canvas where
  "blank = replicate (WIDTH * HEIGHT) (0, 0, 0)"

definition init_receiver :: receiver where
  "init_receiver =
     \<lparr> offscreen = blank, front = blank, shown = [],
       frame_buf = replicate FRAME_BYTES 0, current_frame_id = 0, expected_packets = 0,
       got_packet = [], received_packets = 0 \<rparr>"

text \<open>What one call of \<open>recv\<close> on the datagram socket gives: an error, or a datagram.\<close>

datatype recv_result = RecvFailed | Received "byte list"

text \<open>\<open>ntohs\<close> of two bytes copied from the wire: the first byte is the high one.\<close>

definition be16 :: "byte \<Rightarrow> byte \<Rightarrow> 16 word" where
  "be16 hi lo = word_of_nat (unat hi * 256 + unat lo)"

definition parse_header :: "byte list \<Rightarrow> UdpPacketHeader" where
  "parse_header recv_buf =
     \<lparr> frame_id = be16 (recv_buf ! 0) (recv_buf ! 1),
       packet_index = be16 (recv_buf ! 2) (recv_buf ! 3),
       total_packets = be16 (recv_buf ! 4) (recv_buf ! 5) \<rparr>"

text \<open>Lines 127 to 133: a frame id other than the current one starts a new frame.\<close>

definition new_frame :: "receiver \<Rightarrow> UdpPacketHeader \<Rightarrow> receiver" where
  "new_frame s hdr =
     (if frame_id hdr \<noteq> current_frame_id s
      then s\<lparr> current_frame_id := frame_id hdr,
              expected_packets := total_packets hdr,
              got_packet := replicate (unat (total_packets hdr)) False,
              received_packets := 0,
              frame_buf := replicate (length (frame_buf s)) 0 \<rparr>
      else s)"

text \<open>Lines 149 to 152.\<close>

definition mark_packet :: "receiver \<Rightarrow> nat \<Rightarrow> receiver" where
  "mark_packet s i =
     (if \<not> got_packet s ! i
      then s\<lparr> got_packet := (got_packet s)[i := True],
              received_packets := received_packets s + 1 \<rparr>
      else s)"

text \<open>Lines 155 to 167: draw the frame buffer, top row first, and swap it onto the display.\<close>

definition render :: "byte list \<Rightarrow> canvas \<Rightarrow> canvas" where
  "render buf c = draw_frame WIDTH HEIGHT int buf c"

definition present :: "receiver \<Rightarrow> receiver option" where
  "present s =
     (if length (frame_buf s) < FRAME_BYTES then None
      else Some (SwapOnVSync (s\<lparr> offscreen := render (frame_buf s) (offscreen s) \<rparr>)))"

text \<open>
  Lines 135 to 167, for a header and a payload that passed the length checks. \<open>None\<close> is
  an access outside \<open>frame_buf\<close> or \<open>got_packet\<close>, which the C++ leaves undefined; a
  \<open>continue\<close> returns the state as it is.
\<close>

definition store_chunk :: "receiver \<Rightarrow> UdpPacketHeader \<Rightarrow> byte list \<Rightarrow> receiver option" where
  "store_chunk s hdr payload =
     (if unat (packet_index hdr) \<ge> unat (expected_packets s) then Some s
      else let offset = unat (packet_index hdr) * CHUNK_SIZE in
        if offset \<ge> FRAME_BYTES then Some s
        else let payload_len = length payload;
                 copy_len = (if offset + payload_len > FRAME_BYTES
                             then FRAME_BYTES - offset else payload_len)
          in if offset + copy_len > length (frame_buf s)
                \<or> unat (packet_index hdr) \<ge> length (got_packet s) then None
             else let s2 = s\<lparr> frame_buf := memcpy (frame_buf s) offset payload copy_len \<rparr>;
                      s3 = mark_packet s2 (unat (packet_index hdr))
               in if received_packets s3 = unat (expected_packets s3)
                  then present s3 else Some s3)"

text \<open>
  One iteration of the receive loop, lines 108 to 167. \<open>recv\<close> fills at most the
  \<open>HEADER_SIZE + CHUNK_SIZE\<close> bytes of \<open>recv_buf\<close> and returns how many it wrote, or
  \<open>-1\<close>, which is below \<open>HEADER_SIZE\<close>.
\<close>

definition loop_body :: "receiver \<Rightarrow> recv_result \<Rightarrow> receiver option" where
  "loop_body s ev =
     (case ev of
        RecvFailed \<Rightarrow> Some s
      | Received dg \<Rightarrow>
          let recv_buf = take (HEADER_SIZE + CHUNK_SIZE) dg; n = length recv_buf in
          if n < HEADER_SIZE then Some s
          else let hdr = parse_header recv_buf;
                   payload_len = n - HEADER_SIZE
            in if payload_len > CHUNK_SIZE then Some s
               else store_chunk (new_frame s hdr) hdr (drop HEADER_SIZE recv_buf))"

text \<open>
  The receive loop over what \<open>recv\<close> returns, call after call. The interrupt flag is
  set by a signal from outside; the loop is followed for as long as it is not set.
  \<open>reachable\<close> are the states the loop can be in at the top of an iteration.
\<close>

fun run :: "receiver \<Rightarrow> recv_result list \<Rightarrow> receiver option" where
  "run s [] = Some s"
| "run s (ev # evs) = (case loop_body s ev of None \<Rightarrow> None | Some s' \<Rightarrow> run s' evs)"

inductive reachable :: "receiver \<Rightarrow> bool" where
  reachable_init: "reachable init_receiver"
| reachable_step: "reachable s \<Longrightarrow> loop_body s ev = Some s' \<Longrightarrow> reachable s'"

subsection \<open>Notions used to state the properties of the receiver\<close>

text \<open>The number of indices marked in the bitmap.\<close>

definition popcount :: "bool list \<Rightarrow> nat" where
  "popcount bm = length (filter (\<lambda>b. b) bm)"

text \<open>
  The invariant of the receive loop: the buffers keep their sizes, the bitmap has one
  entry per expected packet, and the counter is the number of marked entries.
\<close>

definition receiver_inv :: "receiver \<Rightarrow> bool" where
  "receiver_inv s \<longleftrightarrow>
     length (frame_buf s) = FRAME_BYTES \<and>
     length (got_packet s) = unat (expected_packets s) \<and>
     received_packets s = popcount (got_packet s) \<and>
     length (offscreen s) = WIDTH * HEIGHT \<and>
     length (front s) = WIDTH * HEIGHT"

text \<open>The two checks of lines 135 to 140 let the chunk through.\<close>

definition accepted :: "receiver \<Rightarrow> UdpPacketHeader \<Rightarrow> bool" where
  "accepted s hdr \<longleftrightarrow>
     unat (packet_index hdr) < unat (expected_packets s) \<and>
     unat (packet_index hdr) * CHUNK_SIZE < FRAME_BYTES"

text \<open>The payload of a datagram as the loop sees it: what follows the header in \<open>recv_buf\<close>.\<close>

definition payload_of :: "byte list \<Rightarrow> byte list" where
  "payload_of dg = drop HEADER_SIZE (take (HEADER_SIZE + CHUNK_SIZE) dg)"

text \<open>The picture that a frame buffer makes on the display of the datagram receiver.\<close>

definition picture :: "byte list \<Rightarrow> canvas" where
  "picture buf = render buf blank"

text \<open>
  The reassembly state holds one chunk of the frame named in its header and nothing
  else: the buffer is zero outside the bytes of that chunk, and no other index is marked.
\<close>

definition holds_only :: "receiver \<Rightarrow> UdpPacketHeader \<Rightarrow> byte list \<Rightarrow> bool" where
  "holds_only s hdr payload \<longleftrightarrow>
     current_frame_id s = frame_id hdr \<and>
     expected_packets s = total_packets hdr \<and>
     (if accepted s hdr
      then frame_buf s = memcpy (replicate FRAME_BYTES 0) (unat (packet_index hdr) * CHUNK_SIZE)
                           payload (length payload) \<and>
           got_packet s = (replicate (unat (total_packets hdr)) False)[unat (packet_index hdr) := True] \<and>
           received_packets s = 1
      else frame_buf s = replicate FRAME_BYTES 0 \<and>
           got_packet s = replicate (unat (total_packets hdr)) False \<and>
           received_packets s = 0)"

text \<open>
  Modelled from the spec: the sender is not part of the sources. A frame of
  \<open>FRAME_BYTES\<close> bytes travels as \<open>total_chunks\<close> datagrams, each a header of three
  16-bit fields in network byte order followed by the \<open>CHUNK_SIZE\<close> bytes of the frame at
  offset \<open>chunk_index * CHUNK_SIZE\<close>.
\<close>

definition total_chunks :: nat where
  "total_chunks = (FRAME_BYTES + CHUNK_SIZE - 1) div CHUNK_SIZE"

definition put16 :: "16 word \<Rightarrow> byte list" where
  "put16 w = [ucast (drop_bit 8 w), ucast w]"

definition chunk_datagram :: "16 word \<Rightarrow> byte list \<Rightarrow> nat \<Rightarrow> byte list" where
  "chunk_datagram fid F i =
     put16 fid @ put16 (word_of_nat i) @ put16 (word_of_nat total_chunks)
     @ take CHUNK_SIZE (drop (i * CHUNK_SIZE) F)"

definition frame_datagrams :: "16 word \<Rightarrow> byte list \<Rightarrow> nat list \<Rightarrow> recv_result list" where
  "frame_datagrams fid F order = map (\<lambda>i. Received (chunk_datagram fid F i)) order"

text \<open>
  The receiver is assembling frame \<open>F\<close> under the id \<open>fid\<close>, the chunks whose indices
  are in \<open>seen\<close> have arrived, and since the display history \<open>before\<close> the frame has been
  shown once per chunk that arrived when no chunk was missing.
\<close>

definition assembling :: "16 word \<Rightarrow> byte list \<Rightarrow> canvas list \<Rightarrow> nat set \<Rightarrow> receiver \<Rightarrow> bool" where
  "assembling fid F before seen s \<longleftrightarrow>
     receiver_inv s \<and> current_frame_id s = fid \<and> unat (expected_packets s) = total_chunks \<and>
     (\<forall>i < total_chunks. got_packet s ! i = (i \<in> seen)) \<and>
     (\<forall>j < FRAME_BYTES. frame_buf s ! j = (if j div CHUNK_SIZE \<in> seen then F ! j else 0)) \<and>
     (\<exists>k. shown s = before @ replicate k (picture F) \<and> (k = 0 \<longleftrightarrow> \<not> {..<total_chunks} \<subseteq> seen))"

text \<open>A receiver in the middle of frame 5: chunk 0 of 3 has arrived.\<close>

definition sample_receiver :: receiver where
  "sample_receiver =
     init_receiver\<lparr> current_frame_id := 5, expected_packets := 3,
       got_packet := [True, False, False], received_packets := 1,
       frame_buf := replicate 1024 9 @ replicate 146432 0 \<rparr>"

section \<open>The stream daemon (matrix\_daemon, src/unnamed/part\_002)\<close>

definition LOGICAL_WIDTH :: nat where "LOGICAL_WIDTH = 256"
definition LOGICAL_HEIGHT :: nat where "LOGICAL_HEIGHT = 192"
definition expected_size :: nat where "expected_size = LOGICAL_WIDTH * LOGICAL_HEIGHT * 3"

text \<open>
  A connected socket is what its next calls of \<open>recv\<close> will meet, in order: bytes that
  arrived together, or an error; after the last of them the peer has closed. \<open>recv\<close>
  returns at most \<open>len\<close> bytes and leaves the rest for the next call; it returns 0 once
  the peer has closed (or where the list holds an empty piece) and \<open>-1\<close> on an error.
\<close>

datatype segment = Data "byte list" | Err

type_synonym socket = "segment list"

fun recv :: "socket \<Rightarrow> nat \<Rightarrow> int \<times> byte list \<times> socket" where
  "recv [] len = (0, [], [])"
| "recv (Err # rest) len = (- 1, [], rest)"
| "recv (Data p # rest) len =
     (if length p \<le> len then (int (length p), p, rest)
      else (int len, take len p, Data (drop len p) # rest))"

text \<open>The bytes that a socket still holds.\<close>

fun pending :: "socket \<Rightarrow> nat" where
  "pending [] = 0"
| "pending (Err # rest) = pending rest"
| "pending (Data p # rest) = length p + pending rest"

text \<open>
  \<open>ReadNBytes\<close>, lines 31 to 41; the loop is \<open>ReadNBytes_from\<close>, started at 0, with
  \<open>tot\<close> for the counter \<open>total\<close> of the source.
\<close>

function ReadNBytes_from :: "socket \<Rightarrow> byte list \<Rightarrow> nat \<Rightarrow> nat \<Rightarrow> bool \<times> byte list \<times> socket" where
  "ReadNBytes_from fd buf n tot =
     (if tot < n then
        (case recv fd (n - tot) of
           (got, bytes, fd') \<Rightarrow>
             if got \<le> 0 then (False, buf, fd')
             else ReadNBytes_from fd' (memcpy buf tot bytes (nat got)) n (tot + nat got))
      else (True, buf, fd))"
  by pat_completeness auto
termination
  by (relation "measure (\<lambda>(fd, buf, n, tot). n - tot)") auto

definition ReadNBytes :: "socket \<Rightarrow> byte list \<Rightarrow> nat \<Rightarrow> bool \<times> byte list \<times> socket" where
  "ReadNBytes fd buf n = ReadNBytes_from fd buf n 0"

text \<open>The static \<open>buffer\<close> of \<open>main\<close>, on top of the driver's canvases.\<close>

record daemon = display +
  buffer :: "byte list"

definition init_daemon :: daemon where
  "init_daemon =
     \<lparr> offscreen = replicate (LOGICAL_WIDTH * LOGICAL_HEIGHT) (0, 0, 0),
       front = replicate (LOGICAL_WIDTH * LOGICAL_HEIGHT) (0, 0, 0),
       shown = [], buffer = replicate expected_size 0 \<rparr>"

text \<open>Lines 127 to 137: buffer row \<open>y_buf\<close> goes to display row \<open>LOGICAL_HEIGHT - 1 - y_buf\<close>.\<close>

definition draw_flipped :: "byte list \<Rightarrow> canvas \<Rightarrow> canvas" where
  "draw_flipped buf c =
     draw_frame LOGICAL_WIDTH LOGICAL_HEIGHT (\<lambda>y_buf. int LOGICAL_HEIGHT - 1 - int y_buf) buf c"

text \<open>
  The inner loop of \<open>main\<close>, lines 120 to 140, on one client: read a frame, draw it, swap
  it onto the display, until \<open>ReadNBytes\<close> fails and the client is closed.
\<close>

function serve_client :: "daemon \<Rightarrow> socket \<Rightarrow> daemon" where
  "serve_client s client =
     (case ReadNBytes client (buffer s) expected_size of
        (ok, buf, client') \<Rightarrow>
          if \<not> ok then s\<lparr> buffer := buf \<rparr>
          else serve_client
                 (SwapOnVSync (s\<lparr> buffer := buf, offscreen := draw_flipped buf (offscreen s) \<rparr>))
                 client')"
  by pat_completeness auto
termination
proof -
  have recv_pending: "pending fd' + nat got = pending fd"
    if "recv fd len = (got, bytes, fd')" for fd len got bytes fd'
    using that by (induction fd len rule: recv.induct) (auto split: if_splits)
  have recv_le: "nat got \<le> len"
    if "recv fd len = (got, bytes, fd')" for fd len got bytes fd'
    using that by (induction fd len rule: recv.induct) (auto split: if_splits)
  have consumed: "ok \<longrightarrow> pending fd' + (n - tot) = pending fd"
    if "ReadNBytes_from fd buf n tot = (ok, buf', fd')" for fd buf n tot ok buf' fd'
    using that
  proof (induction fd buf n tot rule: ReadNBytes_from.induct)
    case (1 fd buf n tot)
    show ?case
    proof (cases "tot < n")
      case False
      then show ?thesis using "1.prems" by simp
    next
      case True
      obtain got bytes fd1 where rc: "recv fd (n - tot) = (got, bytes, fd1)"
        by (cases "recv fd (n - tot)") auto
      show ?thesis
      proof (cases "got \<le> 0")
        case True
        then show ?thesis using "1.prems" \<open>tot < n\<close> rc by simp
      next
        case False
        have le: "nat got \<le> n - tot"
          using rc by (rule recv_le)
        have "ok \<longrightarrow> pending fd' + (n - (tot + nat got)) = pending fd1"
          using "1.IH" [OF True rc [symmetric] refl False] "1.prems" True rc False
          by simp
        then show ?thesis using recv_pending [OF rc] le by auto
      qed
    qed
  qed
  have less: "pending fd' < pending fd"
    if "(True, buf', fd') = ReadNBytes fd buf expected_size" for fd buf buf' fd'
    using consumed [of fd buf expected_size 0 True buf' fd'] that
    by (simp add: ReadNBytes_def expected_size_def LOGICAL_WIDTH_def LOGICAL_HEIGHT_def)
  show ?thesis
    by (relation "measure (\<lambda>(s, client). pending client)") (auto dest: less)
qed

text \<open>Both loops are unfolded one iteration at a time, where a proof asks for it.\<close>

declare ReadNBytes_from.simps [simp del]
declare serve_client.simps [simp del]

text \<open>
  The outer loop of \<open>main\<close>, lines 109 to 141, over the outcomes of \<open>accept\<close>: a failed
  \<open>accept\<close> is reported and the loop goes on; a client is served until it disconnects.
  As in the receiver, the loops are followed for as long as the interrupt flag is not set.
\<close>

datatype accept_result = AcceptFailed | Accepted socket

fun main_loop :: "daemon \<Rightarrow> accept_result list \<Rightarrow> daemon" where
  "main_loop s [] = s"
| "main_loop s (AcceptFailed # conns) = main_loop s conns"
| "main_loop s (Accepted client # conns) = main_loop (serve_client s client) conns"

subsection \<open>Notions used to state the properties of the daemon\<close>

definition daemon_inv :: "daemon \<Rightarrow> bool" where
  "daemon_inv s \<longleftrightarrow>
     length (buffer s) = expected_size \<and>
     length (offscreen s) = LOGICAL_WIDTH * LOGICAL_HEIGHT \<and>
     length (front s) = LOGICAL_WIDTH * LOGICAL_HEIGHT"

text \<open>The picture that a frame received over the stream makes on the display.\<close>

definition stream_picture :: "byte list \<Rightarrow> canvas" where
  "stream_picture buf = draw_flipped buf (replicate (LOGICAL_WIDTH * LOGICAL_HEIGHT) (0, 0, 0))"

text \<open>The \<open>J\<close>-th slice of \<open>expected_size\<close> bytes of a byte stream, counted from 0.\<close>

definition frame_slice :: "byte list \<Rightarrow> nat \<Rightarrow> byte list" where
  "frame_slice stream J = take expected_size (drop (J * expected_size) stream)"

section \<open>Properties of the datagram receiver\<close>

subsection \<open>Sizes, the bitmap count and the invariant of the loop\<close>

lemma length_SetPixel [simp]: "length (SetPixel w h c x y r g b) = length c"
  by (simp add: SetPixel_def)

lemma length_fst_draw_pixel [simp]: "length (fst (draw_pixel w h buf y x st)) = length (fst st)"
  by (simp add: draw_pixel_def Let_def)

lemma length_fst_draw_row [simp]: "length (fst (draw_row w h row_of buf y st)) = length (fst st)"
proof -
  have "length (fst (fold (draw_pixel w h buf y') xs st)) = length (fst st)" for xs y'
    by (induction xs arbitrary: st) simp_all
  then show ?thesis by (simp add: draw_row_def)
qed

lemma length_draw_frame [simp]: "length (draw_frame w h row_of buf c) = length c"
proof -
  have "length (fst (fold (draw_row w h row_of buf) ys st)) = length (fst st)" for ys st
    by (induction ys arbitrary: st) simp_all
  then show ?thesis by (simp add: draw_frame_def)
qed

lemma popcount_replicate_False [simp]: "popcount (replicate n False) = 0"
  by (simp add: popcount_def)

lemma popcount_Nil [simp]: "popcount [] = 0"
  by (simp add: popcount_def)

lemma popcount_mark:
  "i < length bm \<Longrightarrow> \<not> bm ! i \<Longrightarrow> popcount (bm[i := True]) = popcount bm + 1"
proof (induction bm arbitrary: i)
  case Nil
  then show ?case by simp
next
  case (Cons b bm)
  then show ?case by (cases i) (simp_all add: popcount_def)
qed

lemma popcount_le_length: "popcount bm \<le> length bm"
  by (simp add: popcount_def)

lemma popcount_full: "popcount bm = length bm \<longleftrightarrow> (\<forall>i < length bm. bm ! i)"
proof -
  have "length (filter (\<lambda>b. b) bm) = length bm \<longleftrightarrow> (\<forall>b \<in> set bm. b)"
    by (metis (mono_tags, lifting) filter_id_conv length_filter_less nat_neq_iff)
  then show ?thesis by (auto simp: popcount_def all_set_conv_all_nth)
qed

lemma length_memcpy:
  "off + len \<le> length dst \<Longrightarrow> len \<le> length src \<Longrightarrow> length (memcpy dst off src len) = length dst"
  by (simp add: memcpy_def)

lemma receiver_inv_init: "receiver_inv init_receiver"
  by (simp add: receiver_inv_def init_receiver_def blank_def)

lemma receiver_inv_new_frame: "receiver_inv s \<Longrightarrow> receiver_inv (new_frame s hdr)"
  by (simp add: receiver_inv_def new_frame_def)

lemma receiver_inv_mark_packet:
  "receiver_inv s \<Longrightarrow> i < unat (expected_packets s) \<Longrightarrow> receiver_inv (mark_packet s i)"
  by (simp add: receiver_inv_def mark_packet_def popcount_mark)

lemma receiver_inv_present:
  "receiver_inv s \<Longrightarrow> \<exists>s'. present s = Some s' \<and> receiver_inv s'"
  by (simp add: receiver_inv_def present_def SwapOnVSync_def render_def)



lemma chunk_fits:
  "i * CHUNK_SIZE < FRAME_BYTES \<Longrightarrow> n \<le> CHUNK_SIZE \<Longrightarrow> i * CHUNK_SIZE + n \<le> FRAME_BYTES"
  by (simp add: CHUNK_SIZE_def FRAME_BYTES_def WIDTH_def HEIGHT_def)

lemma store_chunk_dropped: "\<not> accepted s hdr \<Longrightarrow> store_chunk s hdr payload = Some s"
  by (auto simp: accepted_def store_chunk_def Let_def)

lemma store_chunk_accepted:
  assumes "receiver_inv s" "accepted s hdr" "length payload \<le> CHUNK_SIZE"
  shows "store_chunk s hdr payload =
     (let s3 = mark_packet
                 (s\<lparr> frame_buf := memcpy (frame_buf s) (unat (packet_index hdr) * CHUNK_SIZE)
                                     payload (length payload) \<rparr>)
                 (unat (packet_index hdr))
      in if received_packets s3 = unat (expected_packets s3) then present s3 else Some s3)"
proof -
  have fits: "unat (packet_index hdr) * CHUNK_SIZE + length payload \<le> FRAME_BYTES"
    using assms by (simp add: accepted_def chunk_fits)
  have len: "length (frame_buf s) = FRAME_BYTES" "length (got_packet s) = unat (expected_packets s)"
    using assms(1) by (simp_all add: receiver_inv_def)
  show ?thesis
    using assms(2) fits len by (simp add: store_chunk_def accepted_def Let_def)
qed

lemma receiver_inv_store_chunk:
  assumes "receiver_inv s" "length payload \<le> CHUNK_SIZE"
  shows "\<exists>s'. store_chunk s hdr payload = Some s' \<and> receiver_inv s'"
proof (cases "accepted s hdr")
  case False
  then show ?thesis using assms by (simp add: store_chunk_dropped)
next
  case True
  define s2 where "s2 = s\<lparr> frame_buf := memcpy (frame_buf s) (unat (packet_index hdr) * CHUNK_SIZE)
                                     payload (length payload) \<rparr>"
  define s3 where "s3 = mark_packet s2 (unat (packet_index hdr))"
  have fits: "unat (packet_index hdr) * CHUNK_SIZE + length payload \<le> FRAME_BYTES"
    using True assms by (simp add: accepted_def chunk_fits)
  have "receiver_inv s2"
    using assms(1) fits by (simp add: s2_def receiver_inv_def length_memcpy)
  moreover have "unat (packet_index hdr) < unat (expected_packets s2)"
    using True by (simp add: accepted_def s2_def)
  ultimately have inv3: "receiver_inv s3"
    unfolding s3_def by (rule receiver_inv_mark_packet)
  have eq: "store_chunk s hdr payload =
      (if received_packets s3 = unat (expected_packets s3) then present s3 else Some s3)"
    using store_chunk_accepted [OF assms(1) True assms(2)] by (simp add: s3_def s2_def Let_def)
  show ?thesis
    using inv3 receiver_inv_present [OF inv3] by (simp add: eq)
qed

lemma payload_len_le: "length (drop HEADER_SIZE (take (HEADER_SIZE + CHUNK_SIZE) dg)) \<le> CHUNK_SIZE"
  by simp

lemma receiver_inv_loop_body:
  assumes "receiver_inv s"
  shows "\<exists>s'. loop_body s ev = Some s' \<and> receiver_inv s'"
proof (cases ev)
  case RecvFailed
  then show ?thesis using assms by (simp add: loop_body_def)
next
  case (Received dg)
  show ?thesis
    using assms receiver_inv_store_chunk [OF receiver_inv_new_frame [OF assms] payload_len_le]
    by (auto simp: loop_body_def Received Let_def)
qed

lemma reachable_inv: "reachable s \<Longrightarrow> receiver_inv s"
proof (induction rule: reachable.induct)
  case reachable_init
  show ?case by (rule receiver_inv_init)
next
  case (reachable_step s ev s')
  then show ?case using receiver_inv_loop_body [of s ev] by auto
qed

lemma run_inv: "receiver_inv s \<Longrightarrow> \<exists>s'. run s evs = Some s' \<and> receiver_inv s'"
proof (induction evs arbitrary: s)
  case Nil
  then show ?case by simp
next
  case (Cons ev evs)
  from receiver_inv_loop_body [OF Cons.prems, of ev]
  obtain s1 where "loop_body s ev = Some s1" "receiver_inv s1" by blast
  then show ?case using Cons.IH [of s1] by simp
qed



subsection \<open>What the drawing loops write\<close>

lemma draw_pixel_eq:
  "0 \<le> y \<Longrightarrow> y < int h \<Longrightarrow> x < w \<Longrightarrow>
   draw_pixel w h buf y x (c, i) = (c[nat y * w + x := pixel_at buf i], i + 3)"
  by (simp add: draw_pixel_def SetPixel_def pixel_at_def Let_def)

lemma fold_draw_pixel:
  assumes "0 \<le> y" "y < int h" "n \<le> w"
  shows "\<exists>c'. fold (draw_pixel w h buf y) [0..<n] (c, start) = (c', start + 3 * n) \<and>
           length c' = length c \<and>
           (\<forall>j < length c. c' ! j =
              (if nat y * w \<le> j \<and> j < nat y * w + n
               then pixel_at buf (start + 3 * (j - nat y * w)) else c ! j))"
  using assms(3)
proof (induction n)
  case 0
  show ?case by auto
next
  case (Suc n)
  then have "n \<le> w" "n < w" by simp_all
  from Suc.IH [OF \<open>n \<le> w\<close>] obtain c' where
    f: "fold (draw_pixel w h buf y) [0..<n] (c, start) = (c', start + 3 * n)" and
    l: "length c' = length c" and
    nth: "\<forall>j < length c. c' ! j =
              (if nat y * w \<le> j \<and> j < nat y * w + n
               then pixel_at buf (start + 3 * (j - nat y * w)) else c ! j)"
    by blast
  let ?c = "c'[nat y * w + n := pixel_at buf (start + 3 * n)]"
  have "fold (draw_pixel w h buf y) [0..<Suc n] (c, start) = (?c, start + 3 * Suc n)"
    using f draw_pixel_eq [OF assms(1,2) \<open>n < w\<close>] by simp
  moreover have "length ?c = length c" using l by simp
  moreover have "\<forall>j < length c. ?c ! j =
              (if nat y * w \<le> j \<and> j < nat y * w + Suc n
               then pixel_at buf (start + 3 * (j - nat y * w)) else c ! j)"
  proof (intro allI impI)
    fix j assume j: "j < length c"
    show "?c ! j = (if nat y * w \<le> j \<and> j < nat y * w + Suc n
               then pixel_at buf (start + 3 * (j - nat y * w)) else c ! j)"
    proof (cases "j = nat y * w + n")
      case True
      then show ?thesis using j l by simp
    next
      case False
      then have "?c ! j = c' ! j" by simp
      then show ?thesis using nth j False by auto
    qed
  qed
  ultimately show ?case by blast
qed

lemma fold_draw_row:
  assumes ok: "rows_ok h row_of" and "m \<le> h"
  shows "\<exists>c'. fold (draw_row w h row_of buf) [0..<m] (c, 0) = (c', 3 * (m * w)) \<and>
           length c' = length c \<and>
           (\<forall>j < length c.
              (\<forall>y < m. \<forall>x < w. j = nat (row_of y) * w + x \<longrightarrow> c' ! j = pixel_at buf (3 * (y * w + x))) \<and>
              ((\<forall>y < m. \<forall>x < w. j \<noteq> nat (row_of y) * w + x) \<longrightarrow> c' ! j = c ! j))"
  using assms(2)
proof (induction m)
  case 0
  show ?case by simp
next
  case (Suc m)
  then have m: "m \<le> h" "m < h" by simp_all
  from Suc.IH [OF m(1)] obtain c1 where
    f: "fold (draw_row w h row_of buf) [0..<m] (c, 0) = (c1, 3 * (m * w))" and
    l: "length c1 = length c" and
    nth: "\<forall>j < length c.
              (\<forall>y < m. \<forall>x < w. j = nat (row_of y) * w + x \<longrightarrow> c1 ! j = pixel_at buf (3 * (y * w + x))) \<and>
              ((\<forall>y < m. \<forall>x < w. j \<noteq> nat (row_of y) * w + x) \<longrightarrow> c1 ! j = c ! j)"
    by blast
  have rm: "0 \<le> row_of m" "row_of m < int h" using ok m by (auto simp: rows_ok_def)
  from fold_draw_pixel [OF rm order_refl, where buf = buf and c = c1 and start = "3 * (m * w)"] obtain c2 where
    f2: "fold (draw_pixel w h buf (row_of m)) [0..<w] (c1, 3 * (m * w)) = (c2, 3 * (m * w) + 3 * w)" and
    l2: "length c2 = length c1" and
    nth2: "\<forall>j < length c1. c2 ! j =
              (if nat (row_of m) * w \<le> j \<and> j < nat (row_of m) * w + w
               then pixel_at buf (3 * (m * w) + 3 * (j - nat (row_of m) * w)) else c1 ! j)"
    by blast
  have step: "fold (draw_row w h row_of buf) [0..<Suc m] (c, 0) = (c2, 3 * (Suc m * w))"
    using f f2 by (simp add: draw_row_def algebra_simps)
  have distinct: "nat (row_of y) * w + x \<noteq> nat (row_of m) * w + x'"
    if "y < m" "x < w" "x' < w" for y x x'
  proof
    assume e: "nat (row_of y) * w + x = nat (row_of m) * w + x'"
    have "(nat (row_of y) * w + x) div w = nat (row_of y)" using that by simp
    moreover have "(nat (row_of m) * w + x') div w = nat (row_of m)" using that by simp
    ultimately have "nat (row_of y) = nat (row_of m)" using e by simp
    moreover have "0 \<le> row_of y" using ok that m by (auto simp: rows_ok_def)
    ultimately have "row_of y = row_of m" using rm by simp
    then have "y = m" using ok that m by (auto simp: rows_ok_def inj_on_def)
    then show False using that by simp
  qed
  have "\<forall>j < length c.
              (\<forall>y < Suc m. \<forall>x < w. j = nat (row_of y) * w + x \<longrightarrow> c2 ! j = pixel_at buf (3 * (y * w + x))) \<and>
              ((\<forall>y < Suc m. \<forall>x < w. j \<noteq> nat (row_of y) * w + x) \<longrightarrow> c2 ! j = c ! j)"
  proof (intro allI impI conjI)
    fix j y x assume j: "j < length c" and y: "y < Suc m" and x: "x < w" and e: "j = nat (row_of y) * w + x"
    show "c2 ! j = pixel_at buf (3 * (y * w + x))"
    proof (cases "y = m")
      case True
      then show ?thesis using nth2 j l e x by (simp add: algebra_simps)
    next
      case False
      then have ym: "y < m" using y by simp
      then have "\<not> (nat (row_of m) * w \<le> j \<and> j < nat (row_of m) * w + w)"
      proof -
        { assume a: "nat (row_of m) * w \<le> j \<and> j < nat (row_of m) * w + w"
          then have "j = nat (row_of m) * w + (j - nat (row_of m) * w)" "j - nat (row_of m) * w < w"
            by auto
          then have False using distinct [OF ym x, of "j - nat (row_of m) * w"] e by metis }
        then show ?thesis by blast
      qed
      then have "c2 ! j = c1 ! j" using nth2 j l by auto
      then show ?thesis using nth j ym x e by simp
    qed
  next
    fix j assume j: "j < length c" and no: "\<forall>y < Suc m. \<forall>x < w. j \<noteq> nat (row_of y) * w + x"
    have "\<not> (nat (row_of m) * w \<le> j \<and> j < nat (row_of m) * w + w)"
    proof -
      { assume a: "nat (row_of m) * w \<le> j \<and> j < nat (row_of m) * w + w"
        then have "j = nat (row_of m) * w + (j - nat (row_of m) * w)" "j - nat (row_of m) * w < w"
          by auto
        then have False using no by (metis lessI) }
      then show ?thesis by blast
    qed
    then have "c2 ! j = c1 ! j" using nth2 j l by auto
    moreover have "c1 ! j = c ! j" using nth j no by simp
    ultimately show "c2 ! j = c ! j" by simp
  qed
  then show ?case using step l l2 by simp
qed

lemma draw_frame_nth:
  assumes "rows_ok h row_of" "y < h" "x < w" "nat (row_of y) * w + x < length c"
  shows "draw_frame w h row_of buf c ! (nat (row_of y) * w + x) = pixel_at buf (3 * (y * w + x))"
  using fold_draw_row [OF assms(1) order_refl, of w buf c] assms(2-4)
  by (auto simp: draw_frame_def)



lemma rows_ok_onto:
  assumes "rows_ok h row_of" "Y < h"
  shows "\<exists>y < h. row_of y = int Y"
proof -
  let ?f = "\<lambda>y. nat (row_of y)"
  have sub: "?f ` {..<h} \<subseteq> {..<h}" using assms(1) by (auto simp: rows_ok_def)
  have "inj_on ?f {..<h}"
  proof (rule inj_onI)
    fix a b assume "a \<in> {..<h}" "b \<in> {..<h}" "nat (row_of a) = nat (row_of b)"
    moreover from this have "0 \<le> row_of a" "0 \<le> row_of b" using assms(1) by (auto simp: rows_ok_def)
    ultimately have "row_of a = row_of b" by simp
    then show "a = b" using assms(1) \<open>a \<in> {..<h}\<close> \<open>b \<in> {..<h}\<close> by (auto simp: rows_ok_def inj_on_def)
  qed
  then have "?f ` {..<h} = {..<h}" using sub by (simp add: endo_inj_surj)
  then have "Y \<in> ?f ` {..<h}" using assms(2) by simp
  then obtain y where "y < h" "Y = nat (row_of y)" by auto
  moreover from this have "0 \<le> row_of y" using assms(1) by (auto simp: rows_ok_def)
  ultimately show ?thesis by auto
qed

lemma draw_frame_overwrites:
  assumes ok: "rows_ok h row_of" and "length c = w * h" "length c' = w * h"
  shows "draw_frame w h row_of buf c = draw_frame w h row_of buf c'"
proof (rule nth_equalityI)
  show "length (draw_frame w h row_of buf c) = length (draw_frame w h row_of buf c')"
    using assms by simp
next
  fix j assume "j < length (draw_frame w h row_of buf c)"
  then have j: "j < w * h" using assms by simp
  then have w: "0 < w" by (cases w) simp_all
  have "j div w < h" using j w by (simp add: less_mult_imp_div_less mult.commute)
  from rows_ok_onto [OF ok this] obtain y where y: "y < h" "row_of y = int (j div w)" by blast
  have x: "j mod w < w" using w by simp
  have e: "nat (row_of y) * w + j mod w = j" using y by simp
  have "draw_frame w h row_of buf c ! (nat (row_of y) * w + j mod w) = pixel_at buf (3 * (y * w + j mod w))"
    by (rule draw_frame_nth [OF ok y(1) x]) (simp add: e j assms)
  moreover have "draw_frame w h row_of buf c' ! (nat (row_of y) * w + j mod w) = pixel_at buf (3 * (y * w + j mod w))"
    by (rule draw_frame_nth [OF ok y(1) x]) (simp add: e j assms)
  ultimately show "draw_frame w h row_of buf c ! j = draw_frame w h row_of buf c' ! j"
    by (simp add: e)
qed

lemma rows_ok_int: "rows_ok h int"
  by (simp add: rows_ok_def)

lemma render_picture: "length c = WIDTH * HEIGHT \<Longrightarrow> render buf c = picture buf"
  unfolding picture_def render_def
  by (rule draw_frame_overwrites [OF rows_ok_int]) (simp_all add: blank_def)

subsection \<open>One iteration on a chunk\<close>

lemma length_payload_of: "length (payload_of dg) \<le> CHUNK_SIZE"
  by (simp add: payload_of_def)

lemma parse_header_take: "parse_header (take (HEADER_SIZE + CHUNK_SIZE) dg) = parse_header dg"
  by (simp add: parse_header_def HEADER_SIZE_def CHUNK_SIZE_def)

lemma loop_body_short:
  "length dg < HEADER_SIZE \<Longrightarrow> loop_body s (Received dg) = Some s"
  by (simp add: loop_body_def Let_def)

lemma loop_body_chunk:
  "HEADER_SIZE \<le> length dg \<Longrightarrow>
   loop_body s (Received dg) = store_chunk (new_frame s (parse_header dg)) (parse_header dg) (payload_of dg)"
proof -
  assume a: "HEADER_SIZE \<le> length dg"
  have "\<not> CHUNK_SIZE < min (length dg) (HEADER_SIZE + CHUNK_SIZE) - HEADER_SIZE"
    "\<not> min (length dg) (HEADER_SIZE + CHUNK_SIZE) < HEADER_SIZE"
    using a by auto
  then show ?thesis
    by (simp add: loop_body_def Let_def parse_header_take payload_of_def)
qed

lemma present_eq:
  "receiver_inv s \<Longrightarrow>
   present s = Some (s\<lparr> offscreen := front s, front := picture (frame_buf s),
                         shown := shown s @ [picture (frame_buf s)] \<rparr>)"
  by (simp add: present_def receiver_inv_def SwapOnVSync_def render_picture)

lemma mark_again: "bm ! i \<Longrightarrow> bm[i := True] = bm"
  using list_update_id [of bm i] by simp

lemma store_chunk_accepted_fields:
  assumes "receiver_inv s" "accepted s hdr" "length payload \<le> CHUNK_SIZE"
  shows "\<exists>s'. store_chunk s hdr payload = Some s' \<and>
     frame_buf s' = memcpy (frame_buf s) (unat (packet_index hdr) * CHUNK_SIZE) payload (length payload) \<and>
     got_packet s' = (got_packet s)[unat (packet_index hdr) := True] \<and>
     received_packets s' =
       (if got_packet s ! unat (packet_index hdr) then received_packets s else received_packets s + 1) \<and>
     current_frame_id s' = current_frame_id s \<and>
     expected_packets s' = expected_packets s \<and>
     shown s' = (if received_packets s' = unat (expected_packets s)
                 then shown s @ [picture (frame_buf s')] else shown s)"
proof -
  define s2 where "s2 = s\<lparr> frame_buf := memcpy (frame_buf s) (unat (packet_index hdr) * CHUNK_SIZE)
                                     payload (length payload) \<rparr>"
  define s3 where "s3 = mark_packet s2 (unat (packet_index hdr))"
  have fits: "unat (packet_index hdr) * CHUNK_SIZE + length payload \<le> FRAME_BYTES"
    using assms by (simp add: accepted_def chunk_fits)
  have "receiver_inv s2"
    using assms(1) fits by (simp add: s2_def receiver_inv_def length_memcpy)
  moreover have i: "unat (packet_index hdr) < unat (expected_packets s2)"
    using assms(2) by (simp add: accepted_def s2_def)
  ultimately have inv3: "receiver_inv s3"
    unfolding s3_def by (rule receiver_inv_mark_packet)
  have eq: "store_chunk s hdr payload =
      (if received_packets s3 = unat (expected_packets s3) then present s3 else Some s3)"
    using store_chunk_accepted [OF assms] by (simp add: s3_def s2_def Let_def)
  have f3: "frame_buf s3 = memcpy (frame_buf s) (unat (packet_index hdr) * CHUNK_SIZE) payload (length payload)"
    "got_packet s3 = (got_packet s)[unat (packet_index hdr) := True]"
    "received_packets s3 =
       (if got_packet s ! unat (packet_index hdr) then received_packets s else received_packets s + 1)"
    "current_frame_id s3 = current_frame_id s" "expected_packets s3 = expected_packets s"
    "shown s3 = shown s"
    by (simp_all add: s3_def s2_def mark_packet_def mark_again)
  show ?thesis
  proof (cases "received_packets s3 = unat (expected_packets s3)")
    case True
    then show ?thesis using eq f3 present_eq [OF inv3] by simp
  next
    case False
    then show ?thesis using eq f3 by simp
  qed
qed



lemma nth_memcpy:
  "off + len \<le> length dst \<Longrightarrow> len \<le> length src \<Longrightarrow> j < length dst \<Longrightarrow>
   memcpy dst off src len ! j = (if off \<le> j \<and> j < off + len then src ! (j - off) else dst ! j)"
  by (auto simp: memcpy_def nth_append)

lemma new_frame_same: "frame_id hdr = current_frame_id s \<Longrightarrow> new_frame s hdr = s"
  by (simp add: new_frame_def)

lemma new_frame_fields:
  "frame_id hdr \<noteq> current_frame_id s \<Longrightarrow>
   current_frame_id (new_frame s hdr) = frame_id hdr \<and>
   expected_packets (new_frame s hdr) = total_packets hdr \<and>
   got_packet (new_frame s hdr) = replicate (unat (total_packets hdr)) False \<and>
   received_packets (new_frame s hdr) = 0 \<and>
   frame_buf (new_frame s hdr) = replicate (length (frame_buf s)) 0 \<and>
   shown (new_frame s hdr) = shown s"
  by (simp add: new_frame_def)

lemma shown_new_frame [simp]: "shown (new_frame s hdr) = shown s"
  by (simp add: new_frame_def)

subsection \<open>Frame id 0 at the start\<close>

lemma loop_body_init_zero:
  assumes "HEADER_SIZE \<le> length dg \<longrightarrow> frame_id (parse_header dg) = 0"
  shows "loop_body init_receiver (Received dg) = Some init_receiver"
proof (cases "HEADER_SIZE \<le> length dg")
  case False
  then show ?thesis by (simp add: loop_body_short)
next
  case True
  then have "new_frame init_receiver (parse_header dg) = init_receiver"
    using assms by (simp add: new_frame_same init_receiver_def)
  moreover have "\<not> accepted init_receiver (parse_header dg)"
    by (simp add: accepted_def init_receiver_def)
  ultimately show ?thesis using True by (simp add: loop_body_chunk store_chunk_dropped)
qed

lemma run_init_zero:
  assumes "\<forall>ev \<in> set evs. \<forall>dg. ev = Received dg \<longrightarrow> HEADER_SIZE \<le> length dg \<longrightarrow> frame_id (parse_header dg) = 0"
  shows "run init_receiver evs = Some init_receiver"
  using assms
proof (induction evs)
  case Nil
  show ?case by simp
next
  case (Cons ev evs)
  have "loop_body init_receiver ev = Some init_receiver"
  proof (cases ev)
    case RecvFailed
    then show ?thesis by (simp add: loop_body_def)
  next
    case (Received dg)
    then show ?thesis using Cons.prems by (simp add: loop_body_init_zero)
  qed
  then show ?case using Cons by simp
qed

text \<open>
  C10. The receiver starts with \<open>current_frame_id = 0\<close> and \<open>expected_packets = 0\<close>.
  As long as every datagram that arrives carries frame id 0, each one is dropped: the
  state stays the initial state, so no frame with id 0 is assembled and nothing is shown.
\<close>
theorem frame_id_zero_dropped_at_start:
  assumes "\<forall>ev \<in> set evs. \<forall>dg. ev = Received dg \<longrightarrow> HEADER_SIZE \<le> length dg \<longrightarrow> frame_id (parse_header dg) = 0"
  shows "current_frame_id init_receiver = 0 \<and> expected_packets init_receiver = 0 \<and>
         run init_receiver evs = Some init_receiver \<and> shown init_receiver = []"
  using run_init_zero [OF assms] by (simp add: init_receiver_def)

theorem frame_id_zero_dropped_at_start_witness:
  "current_frame_id init_receiver = 0 \<and> expected_packets init_receiver = 0 \<and>
   run init_receiver [Received ([0, 0, 0, 0, 0, 144] @ replicate 1024 7), RecvFailed,
                  Received ([0, 0, 0, 1, 0, 144] @ replicate 1024 7)] = Some init_receiver \<and>
   shown init_receiver = []"
proof -
  have h: "\<forall>ev \<in> set [Received ([0, 0, 0, 0, 0, 144] @ replicate 1024 7), RecvFailed,
                  Received ([0, 0, 0, 1, 0, 144] @ replicate 1024 7)].
      \<forall>dg. ev = Received dg \<longrightarrow> HEADER_SIZE \<le> length dg \<longrightarrow> frame_id (parse_header dg) = 0"
    by (simp add: parse_header_def be16_def)
  from frame_id_zero_dropped_at_start [OF h] show ?thesis .
qed

subsection \<open>Chunks that start a frame, chunks out of range\<close>

lemma loop_body_starts_frame:
  assumes inv: "receiver_inv s" and len: "HEADER_SIZE \<le> length dg"
    and new: "frame_id (parse_header dg) \<noteq> current_frame_id s"
  shows "\<exists>s'. loop_body s (Received dg) = Some s' \<and> receiver_inv s' \<and>
           holds_only s' (parse_header dg) (payload_of dg) \<and>
           shown s' = (if accepted s' (parse_header dg) \<and> unat (total_packets (parse_header dg)) = 1
                       then shown s @ [picture (frame_buf s')] else shown s)"
proof -
  let ?hdr = "parse_header dg"
  define s1 where "s1 = new_frame s ?hdr"
  have f1: "current_frame_id s1 = frame_id ?hdr" "expected_packets s1 = total_packets ?hdr"
    "got_packet s1 = replicate (unat (total_packets ?hdr)) False" "received_packets s1 = 0"
    "frame_buf s1 = replicate FRAME_BYTES 0" "shown s1 = shown s"
    using new_frame_fields [OF new] inv by (simp_all add: s1_def receiver_inv_def)
  have inv1: "receiver_inv s1" unfolding s1_def by (rule receiver_inv_new_frame [OF inv])
  have lb: "loop_body s (Received dg) = store_chunk s1 ?hdr (payload_of dg)"
    using len by (simp add: loop_body_chunk s1_def)
  show ?thesis
  proof (cases "accepted s1 ?hdr")
    case False
    then have "store_chunk s1 ?hdr (payload_of dg) = Some s1" by (rule store_chunk_dropped)
    moreover have "holds_only s1 ?hdr (payload_of dg)"
      using False f1 by (simp add: holds_only_def)
    ultimately show ?thesis using lb inv1 f1 False by simp
  next
    case True
    from store_chunk_accepted_fields [OF inv1 True length_payload_of [of dg]]
    obtain s' where s': "store_chunk s1 ?hdr (payload_of dg) = Some s'"
      "frame_buf s' = memcpy (frame_buf s1) (unat (packet_index ?hdr) * CHUNK_SIZE) (payload_of dg) (length (payload_of dg))"
      "got_packet s' = (got_packet s1)[unat (packet_index ?hdr) := True]"
      "received_packets s' =
         (if got_packet s1 ! unat (packet_index ?hdr) then received_packets s1 else received_packets s1 + 1)"
      "current_frame_id s' = current_frame_id s1"
      "expected_packets s' = expected_packets s1"
      "shown s' = (if received_packets s' = unat (expected_packets s1)
                 then shown s1 @ [picture (frame_buf s')] else shown s1)"
      by blast
    have i: "unat (packet_index ?hdr) < unat (total_packets ?hdr)"
      using True f1 by (simp add: accepted_def)
    have r: "received_packets s' = 1" using s'(4) f1 i by simp
    have acc: "accepted s' ?hdr" using True s'(6) by (simp add: accepted_def)
    have fb: "frame_buf s' = memcpy (replicate FRAME_BYTES 0) (unat (packet_index ?hdr) * CHUNK_SIZE)
                           (payload_of dg) (length (payload_of dg))"
      using s'(2) f1(5) by simp
    have gp: "got_packet s' = (replicate (unat (total_packets ?hdr)) False)[unat (packet_index ?hdr) := True]"
      using s'(3) f1(3) by simp
    have ids: "current_frame_id s' = frame_id ?hdr" "expected_packets s' = total_packets ?hdr"
      using s'(5,6) f1(1,2) by simp_all
    have ho: "holds_only s' ?hdr (payload_of dg)"
      unfolding holds_only_def using acc fb gp ids r by simp
    have inv': "receiver_inv s'"
      using receiver_inv_store_chunk [OF inv1 length_payload_of [of dg], of ?hdr] s'(1) by auto
    have sh: "shown s' = (if accepted s' ?hdr \<and> unat (total_packets ?hdr) = 1
                       then shown s @ [picture (frame_buf s')] else shown s)"
    proof (cases "unat (total_packets ?hdr) = 1")
      case True
      then show ?thesis using s'(7) r f1(2,6) acc by simp
    next
      case False
      then show ?thesis using s'(7) r f1(2,6) by simp
    qed
    from ho inv' sh lb s'(1) show ?thesis by simp
  qed
qed

lemma offset_out_of_frame:
  assumes "i * CHUNK_SIZE + n > FRAME_BYTES" "n \<le> CHUNK_SIZE"
  shows "\<not> i * CHUNK_SIZE < FRAME_BYTES"
  using assms chunk_fits [of i n] by auto

text \<open>
  C2, as amended. A chunk is checked against the state that the new-frame handling
  leaves: the state itself when the chunk carries the current frame id, the reset state
  when it carries another. If its index is at least the expected packet count of that
  state, or its byte offset plus its payload length goes past the end of the frame
  buffer, the iteration ends in exactly that state: the chunk writes nothing to the frame
  buffer, marks nothing and counts nothing, nothing is presented, and there is no access
  out of bounds (the result is not \<open>None\<close>). So a chunk of the current frame that is out of
  range leaves frame buffer, bitmap and counter unchanged.
\<close>
theorem out_of_range_chunk_dropped:
  assumes "receiver_inv s" and "HEADER_SIZE \<le> length dg"
    and "unat (packet_index (parse_header dg)) \<ge> unat (expected_packets (new_frame s (parse_header dg)))
         \<or> unat (packet_index (parse_header dg)) * CHUNK_SIZE + length (payload_of dg) > FRAME_BYTES"
  shows "loop_body s (Received dg) = Some (new_frame s (parse_header dg)) \<and>
         shown (new_frame s (parse_header dg)) = shown s \<and>
         (frame_id (parse_header dg) = current_frame_id s \<longrightarrow> loop_body s (Received dg) = Some s)"
proof -
  have "\<not> accepted (new_frame s (parse_header dg)) (parse_header dg)"
    using assms(3) offset_out_of_frame [OF _ length_payload_of]
    by (auto simp: accepted_def)
  then have "loop_body s (Received dg) = Some (new_frame s (parse_header dg))"
    using assms(2) by (simp add: loop_body_chunk store_chunk_dropped)
  then show ?thesis by (simp add: new_frame_same)
qed

lemma sample_receiver_inv: "receiver_inv sample_receiver"
  unfolding receiver_inv_def sample_receiver_def
  apply (simp add: init_receiver_def)
  apply (simp add: blank_def popcount_def)
  apply (simp add: FRAME_BYTES_def WIDTH_def HEIGHT_def)
  done

theorem out_of_range_chunk_dropped_witness:
  "loop_body sample_receiver (Received ([0, 5, 0, 3, 0, 3] @ replicate 1024 7)) = Some sample_receiver"
proof -
  define dg :: "byte list" where "dg = [0, 5, 0, 3, 0, 3] @ replicate 1024 7"
  have h: "parse_header dg = \<lparr> frame_id = 5, packet_index = 3, total_packets = 3 \<rparr>"
    by (simp add: dg_def parse_header_def be16_def)
  have l: "HEADER_SIZE \<le> length dg" by (simp add: dg_def HEADER_SIZE_def)
  have same: "frame_id (parse_header dg) = current_frame_id sample_receiver"
    by (simp add: h sample_receiver_def)
  have c: "unat (packet_index (parse_header dg)) \<ge> unat (expected_packets (new_frame sample_receiver (parse_header dg)))
         \<or> unat (packet_index (parse_header dg)) * CHUNK_SIZE + length (payload_of dg) > FRAME_BYTES"
    by (simp add: new_frame_same [OF same]) (simp add: h sample_receiver_def)
  from out_of_range_chunk_dropped [OF sample_receiver_inv l c] same
  have "loop_body sample_receiver (Received dg) = Some sample_receiver" by blast
  then show ?thesis by (simp only: dg_def)
qed

text \<open>
  Counterexample to C2 as stated, for a chunk that starts a new frame: while frame 5 is being
  assembled, chunk 200 of 144 of frame 6 is dropped, but only after frame buffer, bitmap
  and counter have been reset for frame 6.
\<close>
theorem out_of_range_chunk_of_new_frame_resets:
  "map_option frame_buf
     (run init_receiver [Received ([0, 5, 0, 0, 0, 3] @ replicate 1024 9)])
     = Some (replicate 1024 9 @ replicate 146432 0) \<and>
   map_option received_packets
     (run init_receiver [Received ([0, 5, 0, 0, 0, 3] @ replicate 1024 9)]) = Some 1 \<and>
   map_option frame_buf
     (run init_receiver [Received ([0, 5, 0, 0, 0, 3] @ replicate 1024 9),
                         Received ([0, 6, 0, 200, 0, 144] @ replicate 1024 7)])
     = Some (replicate 147456 0) \<and>
   map_option received_packets
     (run init_receiver [Received ([0, 5, 0, 0, 0, 3] @ replicate 1024 9),
                         Received ([0, 6, 0, 200, 0, 144] @ replicate 1024 7)]) = Some 0"
proof -
  define d1 :: "byte list" where "d1 = [0, 5, 0, 0, 0, 3] @ replicate 1024 9"
  define d2 :: "byte list" where "d2 = [0, 6, 0, 200, 0, 144] @ replicate 1024 7"
  have h: "parse_header d1 = \<lparr> frame_id = 5, packet_index = 0, total_packets = 3 \<rparr>"
    "parse_header d2 = \<lparr> frame_id = 6, packet_index = 200, total_packets = 144 \<rparr>"
    by (simp_all add: d1_def d2_def parse_header_def be16_def)
  have l: "HEADER_SIZE \<le> length d1" "HEADER_SIZE \<le> length d2"
    by (simp_all add: d1_def d2_def HEADER_SIZE_def)
  have p: "payload_of d1 = replicate 1024 9"
    by (simp add: d1_def payload_of_def HEADER_SIZE_def CHUNK_SIZE_def)
  have n1: "frame_id (parse_header d1) \<noteq> current_frame_id init_receiver"
    by (simp add: h init_receiver_def)
  from loop_body_starts_frame [OF receiver_inv_init l(1) n1]
  obtain s1 where s1: "loop_body init_receiver (Received d1) = Some s1" "receiver_inv s1"
    "holds_only s1 (parse_header d1) (payload_of d1)" by blast
  have e1: "expected_packets s1 = 3" "current_frame_id s1 = 5"
    using s1(3) by (simp_all add: holds_only_def h)
  have a1: "accepted s1 (parse_header d1)"
    by (simp add: accepted_def e1 h FRAME_BYTES_def WIDTH_def HEIGHT_def)
  have b1: "frame_buf s1 = replicate 1024 9 @ replicate 146432 0" "received_packets s1 = 1"
    using s1(3) a1 by (simp_all add: holds_only_def h p memcpy_def FRAME_BYTES_def WIDTH_def HEIGHT_def)
  have n2: "frame_id (parse_header d2) \<noteq> current_frame_id s1"
    by (simp add: e1 h)
  from loop_body_starts_frame [OF s1(2) l(2) n2]
  obtain s2 where s2: "loop_body s1 (Received d2) = Some s2"
    "holds_only s2 (parse_header d2) (payload_of d2)" by blast
  have e2: "expected_packets s2 = 144" using s2(2) by (simp add: holds_only_def h)
  have a2: "\<not> accepted s2 (parse_header d2)" by (simp add: accepted_def e2 h)
  have b2: "frame_buf s2 = replicate 147456 0" "received_packets s2 = 0"
    using s2(2) a2 by (simp_all add: holds_only_def FRAME_BYTES_def WIDTH_def HEIGHT_def)
  have r1: "run init_receiver [Received d1] = Some s1" using s1(1) by simp
  have r2: "run init_receiver [Received d1, Received d2] = Some s2" using s1(1) s2(1) by simp
  show ?thesis
    using b1 b2 unfolding d1_def [symmetric] d2_def [symmetric] r1 r2 by simp
qed

subsection \<open>The counter and the bitmap\<close>

lemma loop_body_same_frame:
  assumes inv: "receiver_inv s" and len: "HEADER_SIZE \<le> length dg"
  shows "\<exists>s'. loop_body s (Received dg) = Some s' \<and> receiver_inv s' \<and>
     got_packet s' =
       (if accepted (new_frame s (parse_header dg)) (parse_header dg)
        then (got_packet (new_frame s (parse_header dg)))[unat (packet_index (parse_header dg)) := True]
        else got_packet (new_frame s (parse_header dg))) \<and>
     received_packets s' = received_packets (new_frame s (parse_header dg)) +
       (if accepted (new_frame s (parse_header dg)) (parse_header dg) \<and>
           \<not> got_packet (new_frame s (parse_header dg)) ! unat (packet_index (parse_header dg))
        then 1 else 0)"
proof -
  let ?hdr = "parse_header dg"
  define s1 where "s1 = new_frame s ?hdr"
  have inv1: "receiver_inv s1" unfolding s1_def by (rule receiver_inv_new_frame [OF inv])
  have lb: "loop_body s (Received dg) = store_chunk s1 ?hdr (payload_of dg)"
    using len by (simp add: loop_body_chunk s1_def)
  have ?thesis if "\<not> accepted s1 ?hdr"
    using that lb inv1 store_chunk_dropped [OF that, of "payload_of dg"] by (simp add: s1_def)
  moreover have ?thesis if acc: "accepted s1 ?hdr"
  proof -
    from store_chunk_accepted_fields [OF inv1 acc length_payload_of [of dg]]
    obtain s' where s': "store_chunk s1 ?hdr (payload_of dg) = Some s'"
      "got_packet s' = (got_packet s1)[unat (packet_index ?hdr) := True]"
      "received_packets s' =
         (if got_packet s1 ! unat (packet_index ?hdr) then received_packets s1 else received_packets s1 + 1)"
      by blast
    have inv': "receiver_inv s'"
      using receiver_inv_store_chunk [OF inv1 length_payload_of [of dg], of ?hdr] s'(1) by auto
    show ?thesis using lb s' inv' acc by (simp add: s1_def)
  qed
  ultimately show ?thesis by blast
qed

text \<open>
  C5. \<open>received_packets = popcount got_packet\<close> holds in the initial state and in every
  reachable state, and every iteration from a state of the invariant succeeds and keeps
  it, whatever arrives. On a chunk, the counter goes up by one exactly when
  the chunk passes the checks and its index was not marked yet (both read in the state
  left by the new-frame handling); a chunk whose index is marked already leaves it as it is.
\<close>
theorem received_count_is_popcount:
  assumes "receiver_inv s"
  shows "received_packets init_receiver = popcount (got_packet init_receiver) \<and>
         (\<forall>t. reachable t \<longrightarrow> received_packets t = popcount (got_packet t)) \<and>
         (\<exists>s'. loop_body s ev = Some s' \<and> receiver_inv s' \<and>
               received_packets s' = popcount (got_packet s') \<and>
               (\<forall>dg. ev = Received dg \<and> HEADER_SIZE \<le> length dg \<longrightarrow>
                  got_packet s' =
                    (if accepted (new_frame s (parse_header dg)) (parse_header dg)
                     then (got_packet (new_frame s (parse_header dg)))[unat (packet_index (parse_header dg)) := True]
                     else got_packet (new_frame s (parse_header dg))) \<and>
                  received_packets s' = received_packets (new_frame s (parse_header dg)) +
                    (if accepted (new_frame s (parse_header dg)) (parse_header dg) \<and>
                        \<not> got_packet (new_frame s (parse_header dg)) ! unat (packet_index (parse_header dg))
                     then 1 else 0)))"
proof -
  have i: "received_packets init_receiver = popcount (got_packet init_receiver)"
    using receiver_inv_init by (simp add: receiver_inv_def)
  have p: "\<forall>t. reachable t \<longrightarrow> received_packets t = popcount (got_packet t)"
    using reachable_inv by (simp add: receiver_inv_def)
  from receiver_inv_loop_body [OF assms, of ev]
  obtain s' where s': "loop_body s ev = Some s'" "receiver_inv s'" by blast
  have c: "received_packets s' = popcount (got_packet s')"
    using s'(2) by (simp add: receiver_inv_def)
  have step: "got_packet s' =
                    (if accepted (new_frame s (parse_header dg)) (parse_header dg)
                     then (got_packet (new_frame s (parse_header dg)))[unat (packet_index (parse_header dg)) := True]
                     else got_packet (new_frame s (parse_header dg))) \<and>
                  received_packets s' = received_packets (new_frame s (parse_header dg)) +
                    (if accepted (new_frame s (parse_header dg)) (parse_header dg) \<and>
                        \<not> got_packet (new_frame s (parse_header dg)) ! unat (packet_index (parse_header dg))
                     then 1 else 0)"
    if "ev = Received dg" "HEADER_SIZE \<le> length dg" for dg
    using loop_body_same_frame [OF assms that(2)] s'(1) that(1) by auto
  show ?thesis using i p s' c step by blast
qed

theorem received_count_is_popcount_witness:
  "received_packets init_receiver = popcount (got_packet init_receiver) \<and>
   (\<exists>s'. loop_body sample_receiver (Received ([0, 5, 0, 0, 0, 3] @ replicate 1024 7)) = Some s' \<and>
         receiver_inv s' \<and> received_packets s' = popcount (got_packet s') \<and>
         got_packet s' = [True, False, False] \<and> received_packets s' = 1)"
proof -
  define dg :: "byte list" where "dg = [0, 5, 0, 0, 0, 3] @ replicate 1024 7"
  have h: "parse_header dg = \<lparr> frame_id = 5, packet_index = 0, total_packets = 3 \<rparr>"
    by (simp add: dg_def parse_header_def be16_def)
  have l: "HEADER_SIZE \<le> length dg" by (simp add: dg_def HEADER_SIZE_def)
  have same: "new_frame sample_receiver (parse_header dg) = sample_receiver"
    by (rule new_frame_same) (simp add: h sample_receiver_def)
  have acc: "accepted sample_receiver (parse_header dg)"
    by (simp add: accepted_def h sample_receiver_def FRAME_BYTES_def WIDTH_def HEIGHT_def)
  have g: "got_packet sample_receiver = [True, False, False]" "received_packets sample_receiver = 1"
    by (simp_all add: sample_receiver_def)
  from received_count_is_popcount [OF sample_receiver_inv, of "Received dg"]
  obtain s' where s': "loop_body sample_receiver (Received dg) = Some s'" "receiver_inv s'"
      "received_packets s' = popcount (got_packet s')"
      "\<forall>dg'. Received dg = Received dg' \<and> HEADER_SIZE \<le> length dg' \<longrightarrow>
                  got_packet s' =
                    (if accepted (new_frame sample_receiver (parse_header dg')) (parse_header dg')
                     then (got_packet (new_frame sample_receiver (parse_header dg')))[unat (packet_index (parse_header dg')) := True]
                     else got_packet (new_frame sample_receiver (parse_header dg'))) \<and>
                  received_packets s' = received_packets (new_frame sample_receiver (parse_header dg')) +
                    (if accepted (new_frame sample_receiver (parse_header dg')) (parse_header dg') \<and>
                        \<not> got_packet (new_frame sample_receiver (parse_header dg')) ! unat (packet_index (parse_header dg'))
                     then 1 else 0)"
    by blast
  from s'(4) l have "got_packet s' =
                    (if accepted (new_frame sample_receiver (parse_header dg)) (parse_header dg)
                     then (got_packet (new_frame sample_receiver (parse_header dg)))[unat (packet_index (parse_header dg)) := True]
                     else got_packet (new_frame sample_receiver (parse_header dg))) \<and>
                  received_packets s' = received_packets (new_frame sample_receiver (parse_header dg)) +
                    (if accepted (new_frame sample_receiver (parse_header dg)) (parse_header dg) \<and>
                        \<not> got_packet (new_frame sample_receiver (parse_header dg)) ! unat (packet_index (parse_header dg))
                     then 1 else 0)"
    by blast
  then have "got_packet s' = [True, False, False]" "received_packets s' = 1"
    using acc unfolding same by (simp_all add: g h)
  then show ?thesis
    using received_count_is_popcount [OF sample_receiver_inv, of "Received dg"] s' unfolding dg_def by blast
qed

subsection \<open>What reaches the display\<close>

lemma loop_body_shown:
  assumes inv: "receiver_inv s" and lb: "loop_body s ev = Some s'" and sh: "shown s' \<noteq> shown s"
  shows "received_packets s' = unat (expected_packets s') \<and>
         shown s' = shown s @ [picture (frame_buf s')] \<and> front s' = picture (frame_buf s')"
proof (cases ev)
  case RecvFailed
  then show ?thesis using lb sh by (simp add: loop_body_def)
next
  case (Received dg)
  show ?thesis
  proof (cases "HEADER_SIZE \<le> length dg")
    case False
    then show ?thesis using lb sh Received by (simp add: loop_body_short)
  next
    case True
    let ?hdr = "parse_header dg"
    define s1 where "s1 = new_frame s ?hdr"
    have inv1: "receiver_inv s1" unfolding s1_def by (rule receiver_inv_new_frame [OF inv])
    have eq: "store_chunk s1 ?hdr (payload_of dg) = Some s'"
      using lb True Received by (simp add: loop_body_chunk s1_def)
    have sh1: "shown s1 = shown s" by (simp add: s1_def)
    show ?thesis
    proof (cases "accepted s1 ?hdr")
      case False
      then show ?thesis using eq sh sh1 by (simp add: store_chunk_dropped)
    next
      case acc: True
      define s2 where "s2 = s1\<lparr> frame_buf := memcpy (frame_buf s1) (unat (packet_index ?hdr) * CHUNK_SIZE)
                                     (payload_of dg) (length (payload_of dg)) \<rparr>"
      define s3 where "s3 = mark_packet s2 (unat (packet_index ?hdr))"
      have fits: "unat (packet_index ?hdr) * CHUNK_SIZE + length (payload_of dg) \<le> FRAME_BYTES"
        using acc length_payload_of [of dg] by (simp add: accepted_def chunk_fits)
      have "receiver_inv s2"
        using inv1 fits length_payload_of [of dg] by (simp add: s2_def receiver_inv_def length_memcpy)
      moreover have "unat (packet_index ?hdr) < unat (expected_packets s2)"
        using acc by (simp add: accepted_def s2_def)
      ultimately have inv3: "receiver_inv s3"
        unfolding s3_def by (rule receiver_inv_mark_packet)
      have st: "store_chunk s1 ?hdr (payload_of dg) =
          (if received_packets s3 = unat (expected_packets s3) then present s3 else Some s3)"
        using store_chunk_accepted [OF inv1 acc length_payload_of [of dg]]
        by (simp add: s3_def s2_def Let_def)
      have sh3: "shown s3 = shown s" by (simp add: s3_def s2_def mark_packet_def sh1)
      have c: "received_packets s3 = unat (expected_packets s3)"
        using st eq sh sh3 by (auto split: if_splits)
      then have "s' = s3\<lparr> offscreen := front s3, front := picture (frame_buf s3),
                         shown := shown s3 @ [picture (frame_buf s3)] \<rparr>"
        using st eq present_eq [OF inv3] by simp
      then show ?thesis using c sh3 by simp
    qed
  qed
qed

text \<open>
  C4. In every reachable state, an iteration that puts a canvas on display ends with
  \<open>received_packets = expected_packets\<close> and with every index below
  \<open>expected_packets\<close> marked; what it shows is the picture of the frame buffer.
\<close>
theorem presented_only_when_complete:
  assumes "reachable s" and "loop_body s ev = Some s'" and "shown s' \<noteq> shown s"
  shows "received_packets s' = unat (expected_packets s') \<and>
         (\<forall>i < unat (expected_packets s'). got_packet s' ! i) \<and>
         shown s' = shown s @ [picture (frame_buf s')]"
proof -
  have inv: "receiver_inv s" using assms(1) by (rule reachable_inv)
  have "reachable s'" using assms(1,2) by (rule reachable_step)
  then have inv': "receiver_inv s'" by (rule reachable_inv)
  from loop_body_shown [OF inv assms(2,3)]
  have c: "received_packets s' = unat (expected_packets s')"
    and sh: "shown s' = shown s @ [picture (frame_buf s')]" by simp_all
  have "popcount (got_packet s') = length (got_packet s')"
    using c inv' by (simp add: receiver_inv_def)
  then have "\<forall>i < length (got_packet s'). got_packet s' ! i" by (simp add: popcount_full)
  then show ?thesis using c sh inv' by (simp add: receiver_inv_def)
qed

theorem presented_only_when_complete_witness:
  "\<exists>s'. loop_body init_receiver (Received ([0, 1, 0, 0, 0, 1] @ replicate 1024 7)) = Some s' \<and>
        received_packets s' = unat (expected_packets s') \<and>
        got_packet s' ! 0 \<and>
        shown s' = shown init_receiver @ [picture (frame_buf s')]"
proof -
  define dg :: "byte list" where "dg = [0, 1, 0, 0, 0, 1] @ replicate 1024 7"
  have h: "parse_header dg = \<lparr> frame_id = 1, packet_index = 0, total_packets = 1 \<rparr>"
    by (simp add: dg_def parse_header_def be16_def)
  have l: "HEADER_SIZE \<le> length dg" by (simp add: dg_def HEADER_SIZE_def)
  have n: "frame_id (parse_header dg) \<noteq> current_frame_id init_receiver"
    by (simp add: h init_receiver_def)
  from loop_body_starts_frame [OF receiver_inv_init l n]
  obtain s' where s': "loop_body init_receiver (Received dg) = Some s'"
    "holds_only s' (parse_header dg) (payload_of dg)"
    "shown s' = (if accepted s' (parse_header dg) \<and> unat (total_packets (parse_header dg)) = 1
                       then shown init_receiver @ [picture (frame_buf s')] else shown init_receiver)"
    by blast
  have e: "expected_packets s' = 1" using s'(2) by (simp add: holds_only_def h)
  have acc: "accepted s' (parse_header dg)"
    by (simp add: accepted_def e h FRAME_BYTES_def WIDTH_def HEIGHT_def)
  have ne: "shown s' \<noteq> shown init_receiver" using s'(3) acc by (simp add: h)
  have "0 < unat (expected_packets s')" by (simp add: e)
  then show ?thesis
    using presented_only_when_complete [OF reachable_init s'(1) ne] s'(1) unfolding dg_def by blast
qed

text \<open>
  C6. A chunk whose frame id differs from the current one is applied to a state that has
  been reset: the current id is the chunk's, the expected count is its \<open>total_packets\<close>,
  the bitmap is all false, the counter is 0 and every byte of the frame buffer is 0. After
  the iteration the state holds this chunk only, so nothing of the previous frame is left.
\<close>
theorem new_frame_id_resets_state:
  assumes "receiver_inv s" and "HEADER_SIZE \<le> length dg"
    and "frame_id (parse_header dg) \<noteq> current_frame_id s"
  shows "current_frame_id (new_frame s (parse_header dg)) = frame_id (parse_header dg) \<and>
         expected_packets (new_frame s (parse_header dg)) = total_packets (parse_header dg) \<and>
         got_packet (new_frame s (parse_header dg)) = replicate (unat (total_packets (parse_header dg))) False \<and>
         received_packets (new_frame s (parse_header dg)) = 0 \<and>
         frame_buf (new_frame s (parse_header dg)) = replicate FRAME_BYTES 0 \<and>
         loop_body s (Received dg) = store_chunk (new_frame s (parse_header dg)) (parse_header dg) (payload_of dg) \<and>
         (\<exists>s'. loop_body s (Received dg) = Some s' \<and> holds_only s' (parse_header dg) (payload_of dg))"
proof -
  have "length (frame_buf s) = FRAME_BYTES" using assms(1) by (simp add: receiver_inv_def)
  then have "frame_buf (new_frame s (parse_header dg)) = replicate FRAME_BYTES 0"
    using new_frame_fields [OF assms(3)] by simp
  moreover have "\<exists>s'. loop_body s (Received dg) = Some s' \<and> holds_only s' (parse_header dg) (payload_of dg)"
    using loop_body_starts_frame [OF assms] by blast
  ultimately show ?thesis
    using new_frame_fields [OF assms(3)] loop_body_chunk [OF assms(2), of s] by simp
qed

theorem new_frame_id_resets_state_witness:
  "current_frame_id (new_frame sample_receiver (parse_header ([0, 6, 0, 1, 0, 144] @ replicate 1024 7))) = 6 \<and>
   expected_packets (new_frame sample_receiver (parse_header ([0, 6, 0, 1, 0, 144] @ replicate 1024 7))) = 144 \<and>
   received_packets (new_frame sample_receiver (parse_header ([0, 6, 0, 1, 0, 144] @ replicate 1024 7))) = 0 \<and>
   frame_buf (new_frame sample_receiver (parse_header ([0, 6, 0, 1, 0, 144] @ replicate 1024 7)))
     = replicate FRAME_BYTES 0 \<and>
   (\<exists>s'. loop_body sample_receiver (Received ([0, 6, 0, 1, 0, 144] @ replicate 1024 7)) = Some s' \<and>
         holds_only s' (parse_header ([0, 6, 0, 1, 0, 144] @ replicate 1024 7))
           (payload_of ([0, 6, 0, 1, 0, 144] @ replicate 1024 7)))"
proof -
  define dg :: "byte list" where "dg = [0, 6, 0, 1, 0, 144] @ replicate 1024 7"
  have h: "parse_header dg = \<lparr> frame_id = 6, packet_index = 1, total_packets = 144 \<rparr>"
    by (simp add: dg_def parse_header_def be16_def)
  have l: "HEADER_SIZE \<le> length dg" by (simp add: dg_def HEADER_SIZE_def)
  have n: "frame_id (parse_header dg) \<noteq> current_frame_id sample_receiver"
    by (simp add: h sample_receiver_def)
  have v: "frame_id (parse_header dg) = 6" "total_packets (parse_header dg) = 144"
    by (simp_all add: h)
  from new_frame_id_resets_state [OF sample_receiver_inv l n]
  show ?thesis unfolding v unfolding dg_def by blast
qed

subsection \<open>A late chunk of a frame that was abandoned\<close>

lemma loop_body_keeps_frame:
  assumes inv: "receiver_inv s"
    and same: "\<forall>dg. ev = Received dg \<longrightarrow> HEADER_SIZE \<le> length dg \<longrightarrow> frame_id (parse_header dg) = current_frame_id s"
  shows "\<exists>s'. loop_body s ev = Some s' \<and> receiver_inv s' \<and> current_frame_id s' = current_frame_id s"
proof (cases ev)
  case RecvFailed
  then show ?thesis using inv by (simp add: loop_body_def)
next
  case (Received dg)
  show ?thesis
  proof (cases "HEADER_SIZE \<le> length dg")
    case False
    then show ?thesis using inv Received by (simp add: loop_body_short)
  next
    case True
    then have nf: "new_frame s (parse_header dg) = s"
      using same Received by (simp add: new_frame_same)
    have lb: "loop_body s ev = store_chunk s (parse_header dg) (payload_of dg)"
      using True Received nf by (simp add: loop_body_chunk)
    show ?thesis
    proof (cases "accepted s (parse_header dg)")
      case False
      then show ?thesis using lb inv by (simp add: store_chunk_dropped)
    next
      case acc: True
      from store_chunk_accepted_fields [OF inv acc length_payload_of [of dg]]
      obtain s' where s': "store_chunk s (parse_header dg) (payload_of dg) = Some s'"
        "current_frame_id s' = current_frame_id s" by blast
      have "receiver_inv s'"
        using receiver_inv_store_chunk [OF inv length_payload_of [of dg], of "parse_header dg"] s'(1)
        by auto
      then show ?thesis using lb s' by simp
    qed
  qed
qed

lemma run_keeps_frame:
  assumes "receiver_inv s"
    and "\<forall>ev \<in> set evs. \<forall>dg. ev = Received dg \<longrightarrow> HEADER_SIZE \<le> length dg \<longrightarrow>
           frame_id (parse_header dg) = current_frame_id s"
  shows "\<exists>s'. run s evs = Some s' \<and> receiver_inv s' \<and> current_frame_id s' = current_frame_id s"
  using assms
proof (induction evs arbitrary: s)
  case Nil
  then show ?case by simp
next
  case (Cons ev evs)
  from loop_body_keeps_frame [OF Cons.prems(1), of ev] Cons.prems(2)
  obtain s1 where s1: "loop_body s ev = Some s1" "receiver_inv s1" "current_frame_id s1 = current_frame_id s"
    by auto
  from Cons.IH [OF s1(2)] Cons.prems(2) s1(3)
  obtain s' where "run s1 evs = Some s'" "receiver_inv s'" "current_frame_id s' = current_frame_id s1"
    by auto
  then show ?case using s1 by simp
qed

text \<open>
  C1, as amended. While frame \<open>N\<close> is being assembled, a chunk of another frame \<open>M\<close>
  discards all of \<open>N\<close>: the state then holds that chunk only, and what is shown, if
  anything, is the picture of that buffer. A chunk of \<open>N\<close> that arrives later, after any
  number of chunks of \<open>M\<close>, is not ignored: its id differs from the current id \<open>M\<close>,
  so it starts frame \<open>N\<close> again from a reset state, which discards what was held of \<open>M\<close>.
\<close>
theorem late_chunk_restarts_its_frame:
  assumes "receiver_inv s"
    and "HEADER_SIZE \<le> length dg1" and "frame_id (parse_header dg1) \<noteq> current_frame_id s"
    and "\<forall>ev \<in> set between. \<forall>dg. ev = Received dg \<longrightarrow> HEADER_SIZE \<le> length dg \<longrightarrow>
           frame_id (parse_header dg) = frame_id (parse_header dg1)"
    and "HEADER_SIZE \<le> length dg2" and "frame_id (parse_header dg2) = current_frame_id s"
  shows "\<exists>s1 s1' s2.
           loop_body s (Received dg1) = Some s1 \<and>
           holds_only s1 (parse_header dg1) (payload_of dg1) \<and>
           shown s1 = (if accepted s1 (parse_header dg1) \<and> unat (total_packets (parse_header dg1)) = 1
                       then shown s @ [picture (frame_buf s1)] else shown s) \<and>
           run s1 between = Some s1' \<and>
           current_frame_id s1' = frame_id (parse_header dg1) \<and>
           loop_body s1' (Received dg2) = Some s2 \<and>
           holds_only s2 (parse_header dg2) (payload_of dg2) \<and>
           shown s2 = (if accepted s2 (parse_header dg2) \<and> unat (total_packets (parse_header dg2)) = 1
                       then shown s1' @ [picture (frame_buf s2)] else shown s1')"
proof -
  from loop_body_starts_frame [OF assms(1-3)]
  obtain s1 where s1: "loop_body s (Received dg1) = Some s1" "receiver_inv s1"
    "holds_only s1 (parse_header dg1) (payload_of dg1)"
    "shown s1 = (if accepted s1 (parse_header dg1) \<and> unat (total_packets (parse_header dg1)) = 1
                       then shown s @ [picture (frame_buf s1)] else shown s)"
    by blast
  have id1: "current_frame_id s1 = frame_id (parse_header dg1)"
    using s1(3) by (simp add: holds_only_def)
  from run_keeps_frame [OF s1(2), of between] assms(4) id1
  obtain s1' where s1': "run s1 between = Some s1'" "receiver_inv s1'"
    "current_frame_id s1' = frame_id (parse_header dg1)"
    by auto
  have new: "frame_id (parse_header dg2) \<noteq> current_frame_id s1'"
    using assms(3,6) s1'(3) by simp
  from loop_body_starts_frame [OF s1'(2) assms(5) new]
  obtain s2 where s2: "loop_body s1' (Received dg2) = Some s2"
    "holds_only s2 (parse_header dg2) (payload_of dg2)"
    "shown s2 = (if accepted s2 (parse_header dg2) \<and> unat (total_packets (parse_header dg2)) = 1
                       then shown s1' @ [picture (frame_buf s2)] else shown s1')"
    by blast
  show ?thesis using s1(1,3,4) s1'(1,3) s2 by blast
qed

theorem late_chunk_restarts_its_frame_witness:
  "\<exists>s1 s1' s2.
     loop_body sample_receiver (Received ([0, 6, 0, 0, 0, 3] @ replicate 1024 8)) = Some s1 \<and>
     holds_only s1 (parse_header ([0, 6, 0, 0, 0, 3] @ replicate 1024 8))
       (payload_of ([0, 6, 0, 0, 0, 3] @ replicate 1024 8)) \<and>
     run s1 [RecvFailed, Received ([0, 6, 0, 1, 0, 3] @ replicate 1024 8)] = Some s1' \<and>
     current_frame_id s1' = 6 \<and>
     loop_body s1' (Received ([0, 5, 0, 1, 0, 3] @ replicate 1024 9)) = Some s2 \<and>
     holds_only s2 (parse_header ([0, 5, 0, 1, 0, 3] @ replicate 1024 9))
       (payload_of ([0, 5, 0, 1, 0, 3] @ replicate 1024 9))"
proof -
  define dg1 :: "byte list" where "dg1 = [0, 6, 0, 0, 0, 3] @ replicate 1024 8"
  define dgm :: "byte list" where "dgm = [0, 6, 0, 1, 0, 3] @ replicate 1024 8"
  define dg2 :: "byte list" where "dg2 = [0, 5, 0, 1, 0, 3] @ replicate 1024 9"
  have h: "frame_id (parse_header dg1) = 6" "frame_id (parse_header dgm) = 6"
    "frame_id (parse_header dg2) = 5"
    by (simp_all add: dg1_def dgm_def dg2_def parse_header_def be16_def)
  have l: "HEADER_SIZE \<le> length dg1" "HEADER_SIZE \<le> length dg2"
    by (simp_all add: dg1_def dg2_def HEADER_SIZE_def)
  have c: "current_frame_id sample_receiver = 5" by (simp add: sample_receiver_def)
  have n: "frame_id (parse_header dg1) \<noteq> current_frame_id sample_receiver" by (simp add: h c)
  have m: "\<forall>ev \<in> set [RecvFailed, Received dgm]. \<forall>dg. ev = Received dg \<longrightarrow> HEADER_SIZE \<le> length dg \<longrightarrow>
           frame_id (parse_header dg) = frame_id (parse_header dg1)"
    by (simp add: h)
  have e: "frame_id (parse_header dg2) = current_frame_id sample_receiver" by (simp add: h c)
  from late_chunk_restarts_its_frame [OF sample_receiver_inv l(1) n m l(2) e]
  show ?thesis unfolding h(1) unfolding dg1_def dgm_def dg2_def by blast
qed

text \<open>
  Counterexample to C1 as stated: after a chunk of frame 1 and a chunk of frame 2, a late chunk of
  frame 1 makes frame 1 current again and wipes the bytes received for frame 2.
\<close>
theorem late_chunk_not_ignored:
  "map_option current_frame_id
     (run init_receiver [Received ([0, 1, 0, 0, 0, 144] @ replicate 1024 7),
                         Received ([0, 2, 0, 0, 0, 144] @ replicate 1024 9)]) = Some 2 \<and>
   map_option frame_buf
     (run init_receiver [Received ([0, 1, 0, 0, 0, 144] @ replicate 1024 7),
                         Received ([0, 2, 0, 0, 0, 144] @ replicate 1024 9)])
     = Some (replicate 1024 9 @ replicate 146432 0) \<and>
   map_option current_frame_id
     (run init_receiver [Received ([0, 1, 0, 0, 0, 144] @ replicate 1024 7),
                         Received ([0, 2, 0, 0, 0, 144] @ replicate 1024 9),
                         Received ([0, 1, 0, 1, 0, 144] @ replicate 1024 5)]) = Some 1 \<and>
   map_option frame_buf
     (run init_receiver [Received ([0, 1, 0, 0, 0, 144] @ replicate 1024 7),
                         Received ([0, 2, 0, 0, 0, 144] @ replicate 1024 9),
                         Received ([0, 1, 0, 1, 0, 144] @ replicate 1024 5)])
     = Some (replicate 1024 0 @ replicate 1024 5 @ replicate 145408 0)"
proof -
  define d1 :: "byte list" where "d1 = [0, 1, 0, 0, 0, 144] @ replicate 1024 7"
  define d2 :: "byte list" where "d2 = [0, 2, 0, 0, 0, 144] @ replicate 1024 9"
  define d3 :: "byte list" where "d3 = [0, 1, 0, 1, 0, 144] @ replicate 1024 5"
  have h: "parse_header d1 = \<lparr> frame_id = 1, packet_index = 0, total_packets = 144 \<rparr>"
    "parse_header d2 = \<lparr> frame_id = 2, packet_index = 0, total_packets = 144 \<rparr>"
    "parse_header d3 = \<lparr> frame_id = 1, packet_index = 1, total_packets = 144 \<rparr>"
    by (simp_all add: d1_def d2_def d3_def parse_header_def be16_def)
  have l: "HEADER_SIZE \<le> length d1" "HEADER_SIZE \<le> length d2" "HEADER_SIZE \<le> length d3"
    by (simp_all add: d1_def d2_def d3_def HEADER_SIZE_def)
  have p: "payload_of d2 = replicate 1024 9" "payload_of d3 = replicate 1024 5"
    by (simp_all add: d2_def d3_def payload_of_def HEADER_SIZE_def CHUNK_SIZE_def)
  have n1: "frame_id (parse_header d1) \<noteq> current_frame_id init_receiver"
    by (simp add: h init_receiver_def)
  from loop_body_starts_frame [OF receiver_inv_init l(1) n1]
  obtain s1 where s1: "loop_body init_receiver (Received d1) = Some s1" "receiver_inv s1"
    "holds_only s1 (parse_header d1) (payload_of d1)" by blast
  have n2: "frame_id (parse_header d2) \<noteq> current_frame_id s1"
    using s1(3) by (simp add: holds_only_def h)
  from loop_body_starts_frame [OF s1(2) l(2) n2]
  obtain s2 where s2: "loop_body s1 (Received d2) = Some s2" "receiver_inv s2"
    "holds_only s2 (parse_header d2) (payload_of d2)" by blast
  have e2: "expected_packets s2 = 144" "current_frame_id s2 = 2"
    using s2(3) by (simp_all add: holds_only_def h)
  have a2: "accepted s2 (parse_header d2)"
    by (simp add: accepted_def e2 h FRAME_BYTES_def WIDTH_def HEIGHT_def)
  have b2: "frame_buf s2 = replicate 1024 9 @ replicate 146432 0"
    using s2(3) a2 by (simp add: holds_only_def h p memcpy_def FRAME_BYTES_def WIDTH_def HEIGHT_def)
  have n3: "frame_id (parse_header d3) \<noteq> current_frame_id s2"
    by (simp add: e2 h)
  from loop_body_starts_frame [OF s2(2) l(3) n3]
  obtain s3 where s3: "loop_body s2 (Received d3) = Some s3"
    "holds_only s3 (parse_header d3) (payload_of d3)" by blast
  have e3: "expected_packets s3 = 144" "current_frame_id s3 = 1"
    using s3(2) by (simp_all add: holds_only_def h)
  have a3: "accepted s3 (parse_header d3)"
    by (simp add: accepted_def e3 h FRAME_BYTES_def WIDTH_def HEIGHT_def CHUNK_SIZE_def)
  have b3: "frame_buf s3 = replicate 1024 0 @ replicate 1024 5 @ replicate 145408 0"
    using s3(2) a3
    by (simp add: holds_only_def h p memcpy_def FRAME_BYTES_def WIDTH_def HEIGHT_def CHUNK_SIZE_def)
  have r2: "run init_receiver [Received d1, Received d2] = Some s2"
    using s1(1) s2(1) by simp
  have r3: "run init_receiver [Received d1, Received d2, Received d3] = Some s3"
    using s1(1) s2(1) s3(1) by simp
  show ?thesis
    using e2(2) b2 e3(2) b3 unfolding d1_def [symmetric] d2_def [symmetric] d3_def [symmetric] r2 r3
    by simp
qed

subsection \<open>A whole frame, in any order\<close>

lemma total_chunks_eq: "total_chunks = 144"
  by (simp add: total_chunks_def FRAME_BYTES_def WIDTH_def HEIGHT_def CHUNK_SIZE_def)

lemma frame_bytes_chunks: "FRAME_BYTES = total_chunks * CHUNK_SIZE"
  by (simp add: total_chunks_eq FRAME_BYTES_def WIDTH_def HEIGHT_def CHUNK_SIZE_def)

lemma be16_put16: "be16 (ucast (drop_bit 8 w)) (ucast w) = w"
proof -
  have lo: "unat (ucast w :: byte) = unat w mod 256"
    by (simp add: unsigned_ucast_eq take_bit_eq_mod)
  have d: "unat (drop_bit 8 w) = unat w div 256"
    by (simp add: drop_bit_eq_div unat_div)
  have "unat w < 65536" using unsigned_less [of w, where 'a = nat] by simp
  then have "unat w div 256 < 256" by simp
  then have hi: "unat (ucast (drop_bit 8 w) :: byte) = unat w div 256"
    by (simp add: unsigned_ucast_eq take_bit_eq_mod d)
  have "unat w div 256 * 256 + unat w mod 256 = unat w" by simp
  then show ?thesis by (simp add: be16_def lo hi)
qed

lemma parse_chunk_datagram:
  "parse_header (chunk_datagram fid F i) =
     \<lparr> frame_id = fid, packet_index = word_of_nat i, total_packets = word_of_nat total_chunks \<rparr>"
  by (simp add: parse_header_def chunk_datagram_def put16_def be16_put16)

lemma unat_index: "i < total_chunks \<Longrightarrow> unat (word_of_nat i :: 16 word) = i"
  by (simp add: total_chunks_eq unat_of_nat)

lemma unat_total: "unat (word_of_nat total_chunks :: 16 word) = total_chunks"
  by (simp add: total_chunks_eq unat_of_nat)

lemma length_chunk_datagram: "HEADER_SIZE \<le> length (chunk_datagram fid F i)"
  by (simp add: chunk_datagram_def put16_def HEADER_SIZE_def)

lemma payload_chunk_datagram:
  "payload_of (chunk_datagram fid F i) = take CHUNK_SIZE (drop (i * CHUNK_SIZE) F)"
  by (simp add: payload_of_def chunk_datagram_def put16_def HEADER_SIZE_def)

lemma length_payload_chunk:
  assumes "length F = FRAME_BYTES" "i < total_chunks"
  shows "length (payload_of (chunk_datagram fid F i)) = CHUNK_SIZE"
proof -
  have "i * CHUNK_SIZE + CHUNK_SIZE \<le> total_chunks * CHUNK_SIZE"
    using assms(2) by (metis Suc_leI mult_Suc mult_le_mono1 add.commute)
  then show ?thesis using assms(1) by (simp add: payload_chunk_datagram frame_bytes_chunks)
qed

lemma chunk_range: "0 < c \<Longrightarrow> (i * c \<le> j \<and> j < i * c + c) \<longleftrightarrow> j div c = (i::nat)"
proof
  assume "0 < c" "i * c \<le> j \<and> j < i * c + c"
  then show "j div c = i"
    by (metis add.commute div_nat_eqI mult.commute mult_Suc_right)
next
  assume c: "0 < c" and "j div c = i"
  then have "i * c \<le> j" "j < i * c + c"
    using div_times_less_eq_dividend [of j c] dividend_less_div_times [of c j] by (auto simp: add.commute)
  then show "i * c \<le> j \<and> j < i * c + c" by simp
qed

lemma assembling_step:
  assumes asm: "assembling fid F before seen s" and F: "length F = FRAME_BYTES" and i: "i < total_chunks"
  shows "\<exists>s'. loop_body s (Received (chunk_datagram fid F i)) = Some s' \<and>
              assembling fid F before (insert i seen) s'"
proof -
  let ?dg = "chunk_datagram fid F i"
  let ?hdr = "parse_header ?dg"
  have inv: "receiver_inv s" and cur: "current_frame_id s = fid"
    and ex: "unat (expected_packets s) = total_chunks"
    and got: "\<forall>i < total_chunks. got_packet s ! i = (i \<in> seen)"
    and buf: "\<forall>j < FRAME_BYTES. frame_buf s ! j = (if j div CHUNK_SIZE \<in> seen then F ! j else 0)"
    using asm by (simp_all add: assembling_def)
  from asm obtain k where k: "shown s = before @ replicate k (picture F)"
    "k = 0 \<longleftrightarrow> \<not> {..<total_chunks} \<subseteq> seen"
    by (auto simp: assembling_def)
  have idx: "unat (packet_index ?hdr) = i" using i by (simp add: parse_chunk_datagram unat_index)
  have nf: "new_frame s ?hdr = s" using cur by (simp add: new_frame_same parse_chunk_datagram)
  have lb: "loop_body s (Received ?dg) = store_chunk s ?hdr (payload_of ?dg)"
    using nf by (simp add: loop_body_chunk length_chunk_datagram)
  have off: "i * CHUNK_SIZE + CHUNK_SIZE \<le> FRAME_BYTES"
    using i by (metis Suc_leI mult_Suc mult_le_mono1 add.commute frame_bytes_chunks)
  have acc: "accepted s ?hdr"
    using i off by (simp add: accepted_def idx ex CHUNK_SIZE_def)
  have plen: "length (payload_of ?dg) = CHUNK_SIZE" using F i by (rule length_payload_chunk)
  from store_chunk_accepted_fields [OF inv acc length_payload_of [of ?dg]]
  obtain s' where s': "store_chunk s ?hdr (payload_of ?dg) = Some s'"
    "frame_buf s' = memcpy (frame_buf s) (i * CHUNK_SIZE) (payload_of ?dg) CHUNK_SIZE"
    "got_packet s' = (got_packet s)[i := True]"
    "current_frame_id s' = current_frame_id s"
    "expected_packets s' = expected_packets s"
    "shown s' = (if received_packets s' = unat (expected_packets s)
                 then shown s @ [picture (frame_buf s')] else shown s)"
    unfolding idx plen by blast
  have inv': "receiver_inv s'"
    using receiver_inv_store_chunk [OF inv length_payload_of [of ?dg], of ?hdr] s'(1) by auto
  have lens: "length (frame_buf s) = FRAME_BYTES" "length (got_packet s) = total_chunks"
    "length (frame_buf s') = FRAME_BYTES" "length (got_packet s') = total_chunks"
    using inv inv' ex s'(5) by (simp_all add: receiver_inv_def)
  have got': "\<forall>i' < total_chunks. got_packet s' ! i' = (i' \<in> insert i seen)"
  proof (intro allI impI)
    fix i' assume "i' < total_chunks"
    then have "got_packet s' ! i' = (if i = i' then True else got_packet s ! i')"
      unfolding s'(3) using lens(2) by (simp add: nth_list_update)
    then show "got_packet s' ! i' = (i' \<in> insert i seen)"
      using got \<open>i' < total_chunks\<close> by auto
  qed
  have c0: "0 < CHUNK_SIZE" by (simp add: CHUNK_SIZE_def)
  have buf': "\<forall>j < FRAME_BYTES. frame_buf s' ! j = (if j div CHUNK_SIZE \<in> insert i seen then F ! j else 0)"
  proof (intro allI impI)
    fix j assume j: "j < FRAME_BYTES"
    have m: "frame_buf s' ! j =
        (if i * CHUNK_SIZE \<le> j \<and> j < i * CHUNK_SIZE + CHUNK_SIZE
         then payload_of ?dg ! (j - i * CHUNK_SIZE) else frame_buf s ! j)"
      unfolding s'(2) using off lens(1) plen j by (simp add: nth_memcpy)
    show "frame_buf s' ! j = (if j div CHUNK_SIZE \<in> insert i seen then F ! j else 0)"
    proof (cases "j div CHUNK_SIZE = i")
      case True
      then have r: "i * CHUNK_SIZE \<le> j \<and> j < i * CHUNK_SIZE + CHUNK_SIZE"
        using chunk_range [OF c0, of i j] by simp
      then have "j - i * CHUNK_SIZE < CHUNK_SIZE" "i * CHUNK_SIZE + (j - i * CHUNK_SIZE) = j"
        by auto
      then have "payload_of ?dg ! (j - i * CHUNK_SIZE) = F ! j"
        using F j by (simp add: payload_chunk_datagram)
      then show ?thesis using m r True by simp
    next
      case False
      then have "\<not> (i * CHUNK_SIZE \<le> j \<and> j < i * CHUNK_SIZE + CHUNK_SIZE)"
        using chunk_range [OF c0, of i j] by simp
      then have "frame_buf s' ! j = frame_buf s ! j" using m by auto
      then show ?thesis using buf j False by simp
    qed
  qed
  have complete_iff: "received_packets s' = unat (expected_packets s) \<longleftrightarrow> {..<total_chunks} \<subseteq> insert i seen"
  proof -
    have "received_packets s' = popcount (got_packet s')" using inv' by (simp add: receiver_inv_def)
    then have "received_packets s' = unat (expected_packets s) \<longleftrightarrow> (\<forall>i' < total_chunks. got_packet s' ! i')"
      using popcount_full [of "got_packet s'"] lens(4) ex by simp
    then show ?thesis using got' by auto
  qed
  have sh: "\<exists>k'. shown s' = before @ replicate k' (picture F) \<and>
                 (k' = 0 \<longleftrightarrow> \<not> {..<total_chunks} \<subseteq> insert i seen)"
  proof (cases "{..<total_chunks} \<subseteq> insert i seen")
    case True
    have "frame_buf s' = F"
    proof (rule nth_equalityI)
      show "length (frame_buf s') = length F" using lens F by simp
    next
      fix j assume "j < length (frame_buf s')"
      then have j: "j < FRAME_BYTES" using lens by simp
      then have "j div CHUNK_SIZE < total_chunks"
        using c0 by (simp add: frame_bytes_chunks less_mult_imp_div_less)
      then have "j div CHUNK_SIZE \<in> insert i seen" using True by auto
      then show "frame_buf s' ! j = F ! j" using buf' j by simp
    qed
    then have "shown s' = before @ replicate (Suc k) (picture F)"
      using s'(6) complete_iff True k(1) by (simp add: replicate_append_same)
    then show ?thesis using True by blast
  next
    case False
    then have "\<not> {..<total_chunks} \<subseteq> seen" by auto
    then have "k = 0" using k(2) by simp
    then have "shown s' = before @ replicate 0 (picture F)"
      using s'(6) complete_iff False k(1) by simp
    then show ?thesis using False by blast
  qed
  have "assembling fid F before (insert i seen) s'"
    unfolding assembling_def using inv' s'(4,5) cur ex got' buf' sh by simp
  then show ?thesis using lb s'(1) by simp
qed

lemma assembling_run:
  assumes "assembling fid F before seen s" and "length F = FRAME_BYTES"
    and "set order \<subseteq> {..<total_chunks}"
  shows "\<exists>s'. run s (frame_datagrams fid F order) = Some s' \<and>
              assembling fid F before (seen \<union> set order) s'"
  using assms
proof (induction order arbitrary: seen s)
  case Nil
  then show ?case by (simp add: frame_datagrams_def)
next
  case (Cons i order)
  then have i: "i < total_chunks" and rest: "set order \<subseteq> {..<total_chunks}" by simp_all
  from assembling_step [OF Cons.prems(1,2) i]
  obtain s1 where s1: "loop_body s (Received (chunk_datagram fid F i)) = Some s1"
    "assembling fid F before (insert i seen) s1" by blast
  from Cons.IH [OF s1(2) Cons.prems(2) rest]
  obtain s' where s': "run s1 (frame_datagrams fid F order) = Some s'"
    "assembling fid F before (insert i seen \<union> set order) s'" by blast
  have "run s (frame_datagrams fid F (i # order)) = Some s'"
    using s1(1) s'(1) by (simp add: frame_datagrams_def)
  moreover have "insert i seen \<union> set order = seen \<union> set (i # order)" by auto
  ultimately show ?case using s'(2) by simp
qed

lemma assembling_start:
  assumes inv: "receiver_inv s" and new: "fid \<noteq> current_frame_id s"
  shows "assembling fid F (shown s) {} (new_frame s (parse_header (chunk_datagram fid F i)))"
proof -
  let ?hdr = "parse_header (chunk_datagram fid F i)"
  have n: "frame_id ?hdr \<noteq> current_frame_id s" using new by (simp add: parse_chunk_datagram)
  have f: "current_frame_id (new_frame s ?hdr) = fid"
    "expected_packets (new_frame s ?hdr) = word_of_nat total_chunks"
    "got_packet (new_frame s ?hdr) = replicate total_chunks False"
    "frame_buf (new_frame s ?hdr) = replicate FRAME_BYTES 0"
    "shown (new_frame s ?hdr) = shown s"
    using new_frame_fields [OF n] inv
    by (simp_all add: parse_chunk_datagram unat_total receiver_inv_def)
  have "0 < total_chunks" by (simp add: total_chunks_eq)
  then have "\<not> {..<total_chunks} \<subseteq> {}" by auto
  then have "\<exists>k. shown s = shown s @ replicate k (picture F) \<and> (k = 0 \<longleftrightarrow> \<not> {..<total_chunks} \<subseteq> {})"
    by simp
  then show ?thesis
    unfolding assembling_def using receiver_inv_new_frame [OF inv, of ?hdr] f
    by (simp add: unat_total)
qed

lemma loop_body_after_new_frame:
  "HEADER_SIZE \<le> length dg \<Longrightarrow>
   loop_body (new_frame s (parse_header dg)) (Received dg) = loop_body s (Received dg)"
  by (simp add: loop_body_chunk new_frame_def)

lemma complete_frame_run:
  assumes inv: "receiver_inv s" and new: "fid \<noteq> current_frame_id s"
    and F: "length F = FRAME_BYTES" and order: "set order = {..<total_chunks}"
  shows "\<exists>s'. run s (frame_datagrams fid F order) = Some s' \<and>
              assembling fid F (shown s) {..<total_chunks} s'"
proof (cases order)
  case Nil
  then have "{..<total_chunks} = {}" using order by simp
  then have "total_chunks = 0" by (simp only: lessThan_empty_iff)
  then show ?thesis by (simp add: total_chunks_eq)
next
  case (Cons i rest)
  let ?dg = "chunk_datagram fid F i"
  let ?t = "new_frame s (parse_header ?dg)"
  have sub: "set order \<subseteq> {..<total_chunks}" using order by simp
  from assembling_run [OF assembling_start [OF inv new, of F i] F sub]
  obtain s' where s': "run ?t (frame_datagrams fid F order) = Some s'"
    "assembling fid F (shown s) ({} \<union> set order) s'" by blast
  have "run s (frame_datagrams fid F order) = run ?t (frame_datagrams fid F order)"
    using loop_body_after_new_frame [OF length_chunk_datagram [of fid F i], where s = s]
    by (simp add: Cons frame_datagrams_def)
  then show ?thesis using s' order by simp
qed

text \<open>
  C3, as amended. Take a frame of \<open>FRAME_BYTES\<close> bytes sent under an id that differs from
  the receiver's current frame id when its first chunk arrives. Whatever the order of
  delivery, with chunks repeated or not, once every chunk has been offered the frame
  buffer is the frame, byte for byte, the frame is complete, and all that has been shown
  since is the picture of the frame. The result does not depend on the order.
\<close>
theorem reassembly_order_independent:
  assumes "receiver_inv s" and "fid \<noteq> current_frame_id s"
    and "length F = FRAME_BYTES" and "set order = {..<total_chunks}"
  shows "\<exists>s'. run s (frame_datagrams fid F order) = Some s' \<and>
              frame_buf s' = F \<and>
              current_frame_id s' = fid \<and>
              received_packets s' = unat (expected_packets s') \<and>
              (\<exists>k > 0. shown s' = shown s @ replicate k (picture F))"
proof -
  from complete_frame_run [OF assms]
  obtain s' where s': "run s (frame_datagrams fid F order) = Some s'"
    "assembling fid F (shown s) {..<total_chunks} s'" by blast
  have inv': "receiver_inv s'" and cur: "current_frame_id s' = fid"
    and ex: "unat (expected_packets s') = total_chunks"
    and got: "\<forall>i < total_chunks. got_packet s' ! i"
    and buf: "\<forall>j < FRAME_BYTES. frame_buf s' ! j = (if j div CHUNK_SIZE \<in> {..<total_chunks} then F ! j else 0)"
    using s'(2) by (simp_all add: assembling_def)
  from s'(2) obtain k where k: "shown s' = shown s @ replicate k (picture F)" "k \<noteq> 0"
    by (auto simp: assembling_def)
  have c0: "0 < CHUNK_SIZE" by (simp add: CHUNK_SIZE_def)
  have "frame_buf s' = F"
  proof (rule nth_equalityI)
    show "length (frame_buf s') = length F" using inv' assms(3) by (simp add: receiver_inv_def)
  next
    fix j assume "j < length (frame_buf s')"
    then have j: "j < FRAME_BYTES" using inv' by (simp add: receiver_inv_def)
    then have "j div CHUNK_SIZE < total_chunks"
      using c0 by (simp add: frame_bytes_chunks less_mult_imp_div_less)
    then show "frame_buf s' ! j = F ! j" using buf j by simp
  qed
  moreover have "received_packets s' = unat (expected_packets s')"
    using inv' got ex popcount_full [of "got_packet s'"] by (simp add: receiver_inv_def)
  ultimately show ?thesis using s'(1) cur k by auto
qed

theorem reassembly_order_independent_witness:
  "\<exists>s'. run init_receiver (frame_datagrams 1 (replicate FRAME_BYTES 7) (rev [0..<total_chunks] @ [0, 0])) = Some s' \<and>
        frame_buf s' = replicate FRAME_BYTES 7 \<and>
        current_frame_id s' = 1 \<and>
        received_packets s' = unat (expected_packets s') \<and>
        (\<exists>k > 0. shown s' = shown init_receiver @ replicate k (picture (replicate FRAME_BYTES 7)))"
proof -
  have new: "(1 :: 16 word) \<noteq> current_frame_id init_receiver" by (simp add: init_receiver_def)
  have len: "length (replicate FRAME_BYTES (7 :: byte)) = FRAME_BYTES" by simp
  have "0 < total_chunks" by (simp add: total_chunks_eq)
  then have order: "set (rev [0..<total_chunks] @ [0, 0]) = {..<total_chunks}" by auto
  from reassembly_order_independent [OF receiver_inv_init new len order]
  show ?thesis .
qed

text \<open>
  Counterexample to C3 as stated, for a frame whose id is the current one although none
  of it has arrived: at the start, all chunks of a frame sent under id 0, delivered in order, leave
  the frame buffer all zero, and nothing is shown.
\<close>
theorem frame_zero_never_assembled:
  "map_option frame_buf
     (run init_receiver (frame_datagrams 0 (replicate FRAME_BYTES 7) [0..<total_chunks]))
     = Some (replicate FRAME_BYTES 0) \<and>
   map_option shown
     (run init_receiver (frame_datagrams 0 (replicate FRAME_BYTES 7) [0..<total_chunks]))
     = Some [] \<and>
   replicate FRAME_BYTES 0 \<noteq> (replicate FRAME_BYTES 7 :: byte list)"
proof -
  have "\<forall>ev \<in> set (frame_datagrams 0 (replicate FRAME_BYTES 7) [0..<total_chunks]).
          \<forall>dg. ev = Received dg \<longrightarrow> HEADER_SIZE \<le> length dg \<longrightarrow> frame_id (parse_header dg) = 0"
    by (auto simp: frame_datagrams_def parse_chunk_datagram)
  then have "run init_receiver (frame_datagrams 0 (replicate FRAME_BYTES 7) [0..<total_chunks])
      = Some init_receiver"
    by (rule run_init_zero)
  moreover have "replicate FRAME_BYTES 0 \<noteq> (replicate FRAME_BYTES 7 :: byte list)"
    by (simp add: FRAME_BYTES_def WIDTH_def HEIGHT_def)
  ultimately show ?thesis by (simp add: init_receiver_def)
qed

section \<open>Properties of the stream daemon\<close>

subsection \<open>The flipped drawing loop\<close>

lemma rows_ok_flip: "rows_ok h (\<lambda>y. int h - 1 - int y)"
  by (auto simp: rows_ok_def inj_on_def)

lemma draw_flipped_nth:
  assumes "length c = LOGICAL_WIDTH * LOGICAL_HEIGHT" "y_buf < LOGICAL_HEIGHT" "X < LOGICAL_WIDTH"
  shows "draw_flipped buf c ! ((LOGICAL_HEIGHT - 1 - y_buf) * LOGICAL_WIDTH + X)
         = pixel_at buf (3 * (y_buf * LOGICAL_WIDTH + X))"
proof -
  have r: "nat (int LOGICAL_HEIGHT - 1 - int y_buf) = LOGICAL_HEIGHT - 1 - y_buf"
    using assms(2) by simp
  have "(LOGICAL_HEIGHT - 1 - y_buf) * LOGICAL_WIDTH + X < LOGICAL_HEIGHT * LOGICAL_WIDTH"
  proof -
    have "(LOGICAL_HEIGHT - 1 - y_buf) * LOGICAL_WIDTH + X < (LOGICAL_HEIGHT - 1 - y_buf) * LOGICAL_WIDTH + LOGICAL_WIDTH"
      using assms(3) by simp
    also have "\<dots> = Suc (LOGICAL_HEIGHT - 1 - y_buf) * LOGICAL_WIDTH" by simp
    also have "\<dots> \<le> LOGICAL_HEIGHT * LOGICAL_WIDTH"
      using assms(2) by (intro mult_le_mono1) simp
    finally show ?thesis .
  qed
  then have "nat (int LOGICAL_HEIGHT - 1 - int y_buf) * LOGICAL_WIDTH + X < length c"
    using assms(1) r by (simp add: mult.commute)
  from draw_frame_nth [OF rows_ok_flip assms(2,3) this, of buf]
  show ?thesis by (simp add: draw_flipped_def r)
qed

lemma draw_flipped_picture:
  "length c = LOGICAL_WIDTH * LOGICAL_HEIGHT \<Longrightarrow> draw_flipped buf c = stream_picture buf"
  unfolding stream_picture_def draw_flipped_def
  by (rule draw_frame_overwrites [OF rows_ok_flip]) simp_all

lemma length_draw_flipped [simp]: "length (draw_flipped buf c) = length c"
  by (simp add: draw_flipped_def)

subsection \<open>Reading one frame\<close>

lemma ReadNBytes_from_done: "ReadNBytes_from fd buf n n = (True, buf, fd)"
  by (subst ReadNBytes_from.simps) simp

lemma ReadNBytes_from_ok:
  assumes "\<forall>p \<in> set ps. p \<noteq> []" and "tot \<le> n" and "n - tot \<le> length (concat ps)"
    and "length buf = n"
  shows "\<exists>ps'. ReadNBytes_from (map Data ps @ tail) buf n tot
                 = (True, take tot buf @ take (n - tot) (concat ps), map Data ps' @ tail) \<and>
               concat ps' = drop (n - tot) (concat ps) \<and> (\<forall>p \<in> set ps'. p \<noteq> [])"
  using assms
proof (induction ps arbitrary: buf tot)
  case Nil
  then have "tot = n" by simp
  then show ?case using Nil by (simp add: ReadNBytes_from_done)
next
  case (Cons p ps)
  show ?case
  proof (cases "tot < n")
    case False
    then have "tot = n" using Cons.prems(2) by simp
    then show ?thesis using Cons.prems(1,4)
      by (intro exI [of _ "p # ps"]) (simp add: ReadNBytes_from_done)
  next
    case True
    have p: "p \<noteq> []" and rest: "\<forall>q \<in> set ps. q \<noteq> []" using Cons.prems(1) by simp_all
    show ?thesis
    proof (cases "length p \<le> n - tot")
      case le: True
      let ?buf = "memcpy buf tot p (length p)"
      have lb: "length ?buf = n" using le True Cons.prems(4) by (simp add: memcpy_def)
      have step: "ReadNBytes_from (map Data (p # ps) @ tail) buf n tot
          = ReadNBytes_from (map Data ps @ tail) ?buf n (tot + length p)"
        using True le p by (subst ReadNBytes_from.simps) simp
      have "n - (tot + length p) \<le> length (concat ps)" using Cons.prems(3) le by simp
      have "tot + length p \<le> n" using le True by simp
      from Cons.IH [OF rest this \<open>n - (tot + length p) \<le> length (concat ps)\<close> lb]
      obtain ps' where ps': "ReadNBytes_from (map Data ps @ tail) ?buf n (tot + length p)
                 = (True, take (tot + length p) ?buf @ take (n - (tot + length p)) (concat ps),
                    map Data ps' @ tail)"
        "concat ps' = drop (n - (tot + length p)) (concat ps)" "\<forall>p \<in> set ps'. p \<noteq> []"
        by blast
      have "take (tot + length p) ?buf = take tot buf @ p"
        using Cons.prems(4) True by (simp add: memcpy_def)
      then have "take (tot + length p) ?buf @ take (n - (tot + length p)) (concat ps)
          = take tot buf @ take (n - tot) (concat (p # ps))"
        using le by simp
      moreover have "concat ps' = drop (n - tot) (concat (p # ps))"
        using ps'(2) le by simp
      ultimately show ?thesis using step ps'(1,3) by auto
    next
      case gt: False
      let ?buf = "memcpy buf tot (take (n - tot) p) (n - tot)"
      have step: "ReadNBytes_from (map Data (p # ps) @ tail) buf n tot
          = ReadNBytes_from (Data (drop (n - tot) p) # map Data ps @ tail) ?buf n n"
        using True gt by (subst ReadNBytes_from.simps) (simp add: nat_diff_distrib)
      have "?buf = take tot buf @ take (n - tot) (concat (p # ps))"
        using Cons.prems(4) True gt by (simp add: memcpy_def)
      moreover have "Data (drop (n - tot) p) # map Data ps @ tail
          = map Data (drop (n - tot) p # ps) @ tail" by simp
      moreover have "concat (drop (n - tot) p # ps) = drop (n - tot) (concat (p # ps))"
        using gt by simp
      moreover have "\<forall>q \<in> set (drop (n - tot) p # ps). q \<noteq> []"
        using rest gt by simp
      ultimately show ?thesis unfolding step ReadNBytes_from_done by blast
    qed
  qed
qed

lemma ReadNBytes_from_fails:
  assumes "\<forall>p \<in> set ps. p \<noteq> []" and "length (concat ps) < n - tot"
    and "tail = [] \<or> (\<exists>t. tail = Err # t) \<or> (\<exists>t. tail = Data [] # t)"
  shows "fst (ReadNBytes_from (map Data ps @ tail) buf n tot) = False"
  using assms(1,2)
proof (induction ps arbitrary: buf tot)
  case Nil
  then have "tot < n" by simp
  then show ?case using assms(3) by (subst ReadNBytes_from.simps) auto
next
  case (Cons p ps)
  then have lt: "tot < n" "length p \<le> n - tot" "p \<noteq> []" by simp_all
  have step: "ReadNBytes_from (map Data (p # ps) @ tail) buf n tot
          = ReadNBytes_from (map Data ps @ tail) (memcpy buf tot p (length p)) n (tot + length p)"
    using lt by (subst ReadNBytes_from.simps) simp
  have "length (concat ps) < n - (tot + length p)" using Cons.prems(2) by simp
  then show ?case using Cons.IH [of "tot + length p"] Cons.prems(1) step by simp
qed

lemma recv_bytes:
  "recv fd len = (got, bytes, fd') \<Longrightarrow> length bytes = nat got \<and> nat got \<le> len"
  by (induction fd len rule: recv.induct) (auto split: if_splits)

lemma length_ReadNBytes_from:
  "length buf = n \<Longrightarrow> tot \<le> n \<Longrightarrow> length (fst (snd (ReadNBytes_from fd buf n tot))) = n"
proof (induction fd buf n tot rule: ReadNBytes_from.induct)
  case (1 fd buf n tot)
  show ?case
  proof (cases "tot < n")
    case False
    then show ?thesis using "1.prems" by (subst ReadNBytes_from.simps) simp
  next
    case True
    obtain got bytes fd1 where rc: "recv fd (n - tot) = (got, bytes, fd1)"
      by (cases "recv fd (n - tot)") auto
    show ?thesis
    proof (cases "got \<le> 0")
      case True
      then show ?thesis using "1.prems" \<open>tot < n\<close> rc by (subst ReadNBytes_from.simps) simp
    next
      case False
      have b: "length bytes = nat got" "nat got \<le> n - tot" using recv_bytes [OF rc] by simp_all
      have l: "length (memcpy buf tot bytes (nat got)) = n"
        using b "1.prems" True by (simp add: memcpy_def)
      have "tot + nat got \<le> n" using b True by simp
      from "1.IH" [OF True rc [symmetric] refl False l this]
      show ?thesis using True rc False by (subst ReadNBytes_from.simps) simp
    qed
  qed
qed

subsection \<open>Serving a client\<close>

lemma length_stream_picture [simp]: "length (stream_picture f) = LOGICAL_WIDTH * LOGICAL_HEIGHT"
  by (simp add: stream_picture_def)

lemma daemon_inv_present:
  assumes "daemon_inv s" "length f = expected_size"
  shows "daemon_inv (SwapOnVSync (s\<lparr> buffer := f, offscreen := draw_flipped f (offscreen s) \<rparr>))"
    and "shown (SwapOnVSync (s\<lparr> buffer := f, offscreen := draw_flipped f (offscreen s) \<rparr>))
         = shown s @ [stream_picture f]"
  using assms by (simp_all add: daemon_inv_def SwapOnVSync_def draw_flipped_picture)

lemma serve_client_frames:
  assumes "daemon_inv s" and "\<forall>p \<in> set ps. p \<noteq> []"
    and "concat ps = concat fs @ partial" and "\<forall>f \<in> set fs. length f = expected_size"
    and "length partial < expected_size"
    and "tail = [] \<or> (\<exists>t. tail = Err # t) \<or> (\<exists>t. tail = Data [] # t)"
  shows "shown (serve_client s (map Data ps @ tail)) = shown s @ map stream_picture fs \<and>
         daemon_inv (serve_client s (map Data ps @ tail))"
  using assms(1-4)
proof (induction fs arbitrary: s ps)
  case Nil
  then have "length (concat ps) < expected_size - 0" using assms(5) by simp
  from ReadNBytes_from_fails [OF Nil.prems(2) this assms(6), of "buffer s"]
  have f: "fst (ReadNBytes (map Data ps @ tail) (buffer s) expected_size) = False"
    by (simp add: ReadNBytes_def)
  obtain ok buf client' where r: "ReadNBytes (map Data ps @ tail) (buffer s) expected_size = (ok, buf, client')"
    by (cases "ReadNBytes (map Data ps @ tail) (buffer s) expected_size") auto
  have "length buf = expected_size"
    using length_ReadNBytes_from [of "buffer s" expected_size 0 "map Data ps @ tail"] r Nil.prems(1)
    by (simp add: ReadNBytes_def daemon_inv_def)
  moreover have "serve_client s (map Data ps @ tail) = s\<lparr> buffer := buf \<rparr>"
    using r f by (subst serve_client.simps) simp
  ultimately show ?case using Nil.prems(1) by (simp add: daemon_inv_def)
next
  case (Cons f fs)
  have lf: "length f = expected_size" and rest: "\<forall>g \<in> set fs. length g = expected_size"
    using Cons.prems(4) by simp_all
  have cat: "concat ps = f @ concat fs @ partial" using Cons.prems(3) by simp
  then have enough: "expected_size - 0 \<le> length (concat ps)" using lf by simp
  have lb: "length (buffer s) = expected_size" using Cons.prems(1) by (simp add: daemon_inv_def)
  from ReadNBytes_from_ok [OF Cons.prems(2) _ enough lb, of tail]
  obtain ps' where ps': "ReadNBytes (map Data ps @ tail) (buffer s) expected_size
        = (True, take expected_size (concat ps), map Data ps' @ tail)"
    "concat ps' = drop expected_size (concat ps)" "\<forall>p \<in> set ps'. p \<noteq> []"
    by (auto simp: ReadNBytes_def)
  have tk: "take expected_size (concat ps) = f" and dr: "concat ps' = concat fs @ partial"
    using cat lf ps'(2) by simp_all
  let ?s1 = "SwapOnVSync (s\<lparr> buffer := f, offscreen := draw_flipped f (offscreen s) \<rparr>)"
  have step: "serve_client s (map Data ps @ tail) = serve_client ?s1 (map Data ps' @ tail)"
    using ps'(1) tk by (subst serve_client.simps) simp
  from Cons.IH [OF daemon_inv_present(1) [OF Cons.prems(1) lf] ps'(3) dr rest]
  show ?case using step daemon_inv_present(2) [OF Cons.prems(1) lf] by simp
qed

lemma concat_slices:
  "concat (map (frame_slice stream) [0..<K]) = take (K * expected_size) stream"
proof (induction K)
  case 0
  show ?case by simp
next
  case (Suc K)
  have "take (Suc K * expected_size) stream = take (K * expected_size + expected_size) stream"
    by (simp add: add.commute)
  also have "\<dots> = take (K * expected_size) stream @ take expected_size (drop (K * expected_size) stream)"
    by (rule take_add)
  finally show ?case using Suc by (simp add: frame_slice_def)
qed

lemma length_slice:
  assumes "length stream = K * expected_size" "J < K"
  shows "length (frame_slice stream J) = expected_size"
proof -
  have "J * expected_size + expected_size \<le> K * expected_size"
    using assms(2) by (metis Suc_leI mult_Suc mult_le_mono1 add.commute)
  then show ?thesis using assms(1) by (simp add: frame_slice_def)
qed

lemma stream_picture_inj:
  assumes f: "length f = expected_size" and g: "length g = expected_size"
    and eq: "stream_picture f = stream_picture g"
  shows "f = g"
proof (rule nth_equalityI)
  show "length f = length g" using f g by simp
next
  fix b assume "b < length f"
  then have b: "b < LOGICAL_WIDTH * LOGICAL_HEIGHT * 3" using f by (simp add: expected_size_def)
  define k where "k = b div 3"
  define y where "y = k div LOGICAL_WIDTH"
  define x where "x = k mod LOGICAL_WIDTH"
  have k: "k < LOGICAL_WIDTH * LOGICAL_HEIGHT" using b by (simp add: k_def less_mult_imp_div_less)
  then have w: "0 < LOGICAL_WIDTH" by (cases LOGICAL_WIDTH) simp_all
  have y: "y < LOGICAL_HEIGHT" using k w by (simp add: y_def less_mult_imp_div_less mult.commute)
  have x: "x < LOGICAL_WIDTH" using w by (simp add: x_def)
  have kx: "y * LOGICAL_WIDTH + x = k" by (simp add: y_def x_def)
  have pf: "stream_picture f ! ((LOGICAL_HEIGHT - 1 - y) * LOGICAL_WIDTH + x) = pixel_at f (3 * k)"
    unfolding stream_picture_def using draw_flipped_nth [OF _ y x, of _ f] by (simp add: kx)
  have pg: "stream_picture g ! ((LOGICAL_HEIGHT - 1 - y) * LOGICAL_WIDTH + x) = pixel_at g (3 * k)"
    unfolding stream_picture_def using draw_flipped_nth [OF _ y x, of _ g] by (simp add: kx)
  have p: "pixel_at f (3 * k) = pixel_at g (3 * k)" using pf pg eq by simp
  have "b = 3 * k \<or> b = 3 * k + 1 \<or> b = 3 * k + 2" unfolding k_def by presburger
  then show "f ! b = g ! b" using p by (auto simp: pixel_at_def)
qed

lemma daemon_inv_init: "daemon_inv init_daemon"
  by (simp add: daemon_inv_def init_daemon_def)

lemma expected_size_ge: "100 \<le> expected_size"
  by (simp add: expected_size_def LOGICAL_WIDTH_def LOGICAL_HEIGHT_def)

lemma sample_pieces:
  "concat [replicate 100 (1 :: byte), replicate (expected_size - 100) 1 @ replicate 5 2,
           replicate (expected_size - 5) 2]
   = replicate expected_size 1 @ replicate expected_size 2"
proof -
  have "replicate 100 (1 :: byte) @ replicate (expected_size - 100) 1 = replicate expected_size 1"
    using expected_size_ge by (simp add: replicate_add [symmetric])
  moreover have "replicate 5 (2 :: byte) @ replicate (expected_size - 5) 2 = replicate expected_size 2"
    using expected_size_ge by (simp add: replicate_add [symmetric])
  ultimately show ?thesis by simp
qed

text \<open>
  C7. A client sends exactly \<open>K * expected_size\<close> bytes, which arrive cut into pieces at
  any points, and closes. The daemon then puts exactly \<open>K\<close> frames on display, in order,
  and the \<open>J\<close>-th is the picture of the \<open>J\<close>-th slice of \<open>expected_size\<close> bytes of the
  stream; no other frame of that size has this picture, so the frame shown is that slice
  byte for byte.
\<close>
theorem stream_yields_frames_in_order:
  assumes "daemon_inv s" and "length stream = K * expected_size"
    and "concat pieces = stream" and "\<forall>p \<in> set pieces. p \<noteq> []"
  shows "shown (serve_client s (map Data pieces))
           = shown s @ map (\<lambda>J. stream_picture (frame_slice stream J)) [0..<K] \<and>
         length (shown (serve_client s (map Data pieces))) = length (shown s) + K \<and>
         (\<forall>J < K. \<forall>f. length f = expected_size \<and>
              stream_picture f = shown (serve_client s (map Data pieces)) ! (length (shown s) + J)
              \<longrightarrow> f = frame_slice stream J)"
proof -
  let ?fs = "map (frame_slice stream) [0..<K]"
  have c: "concat pieces = concat ?fs @ []"
    using concat_slices [of stream K] assms(2,3) by simp
  have l: "\<forall>f \<in> set ?fs. length f = expected_size"
    using length_slice [OF assms(2)] by auto
  have e: "0 < expected_size" by (simp add: expected_size_def LOGICAL_WIDTH_def LOGICAL_HEIGHT_def)
  then have p: "length ([] :: byte list) < expected_size" by simp
  have t: "([] :: socket) = [] \<or> (\<exists>t. ([] :: socket) = Err # t) \<or> (\<exists>t. ([] :: socket) = Data [] # t)"
    by simp
  from serve_client_frames [OF assms(1,4) c l p t]
  have sh: "shown (serve_client s (map Data pieces)) = shown s @ map stream_picture ?fs" by simp
  have "f = frame_slice stream J"
    if "J < K" "length f = expected_size"
      "stream_picture f = shown (serve_client s (map Data pieces)) ! (length (shown s) + J)" for J f
  proof -
    have "stream_picture f = stream_picture (frame_slice stream J)"
      using that(1,3) sh by simp
    then show ?thesis
      using stream_picture_inj [OF that(2) length_slice [OF assms(2) that(1)]] by simp
  qed
  then show ?thesis using sh by (simp add: comp_def)
qed

theorem stream_yields_frames_in_order_witness:
  "shown (serve_client init_daemon
       (map Data [replicate 100 1, replicate (expected_size - 100) 1 @ replicate 5 2,
                  replicate (expected_size - 5) 2]))
   = shown init_daemon @
     map (\<lambda>J. stream_picture (frame_slice (replicate expected_size 1 @ replicate expected_size 2) J)) [0..<2]
   \<and> length (shown (serve_client init_daemon
       (map Data [replicate 100 1, replicate (expected_size - 100) 1 @ replicate 5 2,
                  replicate (expected_size - 5) 2])))
     = length (shown init_daemon) + 2"
proof -
  have l: "length (replicate expected_size (1 :: byte) @ replicate expected_size 2) = 2 * expected_size"
    by simp
  have n: "\<forall>p \<in> set [replicate 100 (1 :: byte), replicate (expected_size - 100) 1 @ replicate 5 2,
           replicate (expected_size - 5) 2]. p \<noteq> []"
    using expected_size_ge by simp
  from stream_yields_frames_in_order [OF daemon_inv_init l sample_pieces n]
  show ?thesis by blast
qed

text \<open>
  C8. Every frame received over the stream is drawn upside down: of the \<open>J\<close>-th frame
  that a client delivers, the pixel at buffer row \<open>y_buf\<close> and column \<open>X\<close> (three bytes,
  red, green, blue, at byte \<open>3 * (y_buf * LOGICAL_WIDTH + X)\<close>) is the pixel of the canvas
  put on display at column \<open>X\<close> of row \<open>LOGICAL_HEIGHT - 1 - y_buf\<close>, in the same byte order.
\<close>
theorem stream_frames_flipped_vertically:
  assumes "daemon_inv s" and "\<forall>p \<in> set pieces. p \<noteq> []"
    and "concat pieces = concat frames" and "\<forall>f \<in> set frames. length f = expected_size"
    and "J < length frames" and "y_buf < LOGICAL_HEIGHT" and "X < LOGICAL_WIDTH"
  shows "GetPixel LOGICAL_WIDTH (shown (serve_client s (map Data pieces)) ! (length (shown s) + J))
           X (LOGICAL_HEIGHT - 1 - y_buf)
         = (frames ! J ! (3 * (y_buf * LOGICAL_WIDTH + X)),
            frames ! J ! (3 * (y_buf * LOGICAL_WIDTH + X) + 1),
            frames ! J ! (3 * (y_buf * LOGICAL_WIDTH + X) + 2))"
proof -
  have c: "concat pieces = concat frames @ []" using assms(3) by simp
  have e: "0 < expected_size" by (simp add: expected_size_def LOGICAL_WIDTH_def LOGICAL_HEIGHT_def)
  then have p: "length ([] :: byte list) < expected_size" by simp
  have t: "([] :: socket) = [] \<or> (\<exists>t. ([] :: socket) = Err # t) \<or> (\<exists>t. ([] :: socket) = Data [] # t)"
    by simp
  from serve_client_frames [OF assms(1,2) c assms(4) p t]
  have "shown (serve_client s (map Data pieces)) = shown s @ map stream_picture frames" by simp
  then have "shown (serve_client s (map Data pieces)) ! (length (shown s) + J) = stream_picture (frames ! J)"
    using assms(5) by simp
  moreover have "stream_picture (frames ! J) ! ((LOGICAL_HEIGHT - 1 - y_buf) * LOGICAL_WIDTH + X)
      = pixel_at (frames ! J) (3 * (y_buf * LOGICAL_WIDTH + X))"
    unfolding stream_picture_def by (rule draw_flipped_nth [OF _ assms(6,7)]) simp
  ultimately show ?thesis by (simp add: GetPixel_def pixel_at_def)
qed

theorem stream_frames_flipped_vertically_witness:
  "GetPixel LOGICAL_WIDTH
     (shown (serve_client init_daemon
        (map Data [replicate 100 1, replicate (expected_size - 100) 1 @ replicate 5 2,
                   replicate (expected_size - 5) 2])) ! (length (shown init_daemon) + 1))
     3 (LOGICAL_HEIGHT - 1 - 0)
   = ([replicate expected_size 1, replicate expected_size 2] ! 1 ! (3 * (0 * LOGICAL_WIDTH + 3)),
      [replicate expected_size 1, replicate expected_size 2] ! 1 ! (3 * (0 * LOGICAL_WIDTH + 3) + 1),
      [replicate expected_size 1, replicate expected_size 2] ! 1 ! (3 * (0 * LOGICAL_WIDTH + 3) + 2))"
proof -
  have n: "\<forall>p \<in> set [replicate 100 (1 :: byte), replicate (expected_size - 100) 1 @ replicate 5 2,
           replicate (expected_size - 5) 2]. p \<noteq> []"
    using expected_size_ge by simp
  have c: "concat [replicate 100 (1 :: byte), replicate (expected_size - 100) 1 @ replicate 5 2,
           replicate (expected_size - 5) 2]
      = concat [replicate expected_size 1, replicate expected_size 2]"
    using sample_pieces by simp
  have l: "\<forall>f \<in> set [replicate expected_size (1 :: byte), replicate expected_size 2]. length f = expected_size"
    by simp
  have j: "1 < length [replicate expected_size (1 :: byte), replicate expected_size 2]" by simp
  have y: "0 < LOGICAL_HEIGHT" "3 < LOGICAL_WIDTH"
    by (simp_all add: LOGICAL_HEIGHT_def LOGICAL_WIDTH_def)
  from stream_frames_flipped_vertically [OF daemon_inv_init n c l j y]
  show ?thesis .
qed

text \<open>
  C9. A client delivers some whole frames and then fewer than \<open>expected_size\<close> bytes, in
  pieces cut at any points, before its connection ends with a read of zero bytes or an
  error. Short reads are gathered into whole frames, each of which is shown; the bytes of
  the frame left unfinished are never shown; and the daemon goes on to the next client,
  whose frames are shown after a failed \<open>accept\<close> in between.
\<close>
theorem disconnect_discards_partial_frame:
  assumes "daemon_inv s"
    and "\<forall>p \<in> set pieces. p \<noteq> []" and "concat pieces = concat frames @ partial"
    and "\<forall>f \<in> set frames. length f = expected_size" and "length partial < expected_size"
    and "tail = [] \<or> (\<exists>t. tail = Err # t) \<or> (\<exists>t. tail = Data [] # t)"
    and "\<forall>p \<in> set pieces'. p \<noteq> []" and "concat pieces' = concat frames'"
    and "\<forall>f \<in> set frames'. length f = expected_size"
  shows "shown (serve_client s (map Data pieces @ tail)) = shown s @ map stream_picture frames \<and>
         shown (main_loop s [Accepted (map Data pieces @ tail), AcceptFailed, Accepted (map Data pieces')])
           = shown s @ map stream_picture frames @ map stream_picture frames'"
proof -
  let ?s1 = "serve_client s (map Data pieces @ tail)"
  from serve_client_frames [OF assms(1-6)]
  have s1: "shown ?s1 = shown s @ map stream_picture frames" "daemon_inv ?s1" by simp_all
  have c: "concat pieces' = concat frames' @ []" using assms(8) by simp
  have e: "0 < expected_size" by (simp add: expected_size_def LOGICAL_WIDTH_def LOGICAL_HEIGHT_def)
  then have p: "length ([] :: byte list) < expected_size" by simp
  have t: "([] :: socket) = [] \<or> (\<exists>t. ([] :: socket) = Err # t) \<or> (\<exists>t. ([] :: socket) = Data [] # t)"
    by simp
  from serve_client_frames [OF s1(2) assms(7) c assms(9) p t]
  have "shown (serve_client ?s1 (map Data pieces')) = shown ?s1 @ map stream_picture frames'" by simp
  then show ?thesis using s1(1) by simp
qed

theorem disconnect_discards_partial_frame_witness:
  "shown (serve_client init_daemon
      (map Data [replicate 100 1, replicate (expected_size - 100) 1 @ replicate 5 2] @ [Err]))
     = shown init_daemon @ map stream_picture [replicate expected_size 1] \<and>
   shown (main_loop init_daemon
      [Accepted (map Data [replicate 100 1, replicate (expected_size - 100) 1 @ replicate 5 2] @ [Err]),
       AcceptFailed,
       Accepted (map Data [replicate expected_size 3])])
     = shown init_daemon @ map stream_picture [replicate expected_size 1]
         @ map stream_picture [replicate expected_size 3]"
proof -
  have n: "\<forall>p \<in> set [replicate 100 (1 :: byte), replicate (expected_size - 100) 1 @ replicate 5 2]. p \<noteq> []"
    by simp
  have "replicate 100 (1 :: byte) @ replicate (expected_size - 100) 1 = replicate expected_size 1"
    using expected_size_ge by (simp add: replicate_add [symmetric])
  then have c: "concat [replicate 100 (1 :: byte), replicate (expected_size - 100) 1 @ replicate 5 2]
      = concat [replicate expected_size 1] @ replicate 5 2"
    by simp
  have l: "\<forall>f \<in> set [replicate expected_size (1 :: byte)]. length f = expected_size" by simp
  have p: "length (replicate 5 (2 :: byte)) < expected_size" using expected_size_ge by simp
  have t: "[Err] = [] \<or> (\<exists>t. [Err] = Err # t) \<or> (\<exists>t. [Err] = Data [] # t)" by simp
  have n': "\<forall>p \<in> set [replicate expected_size (3 :: byte)]. p \<noteq> []"
    using expected_size_ge by auto
  have c': "concat [replicate expected_size (3 :: byte)] = concat [replicate expected_size 3]" by simp
  have l': "\<forall>f \<in> set [replicate expected_size (3 :: byte)]. length f = expected_size" by simp
  from disconnect_discards_partial_frame [OF daemon_inv_init n c l p t n' c' l']
  show ?thesis .
qed

end
